theory Spec2Isabelle
  imports Main "HOL-Library.AList" "HOL-Library.Multiset"
begin

section \<open>Transactions and the object store\<close>

text \<open>
  Modelled from the spec: \<^verbatim>\<open>src/helpers/transactionTypes.js\<close> and the types of
  \<^verbatim>\<open>src/helpers/types\<close> are imported by the sources and are not among them. The
  transaction type is a tagged variant over at least SEND, SIGNATURE, VOTE, REFERRAL,
  STAKE and SENDSTAKE (every other tag is \<open>OTHER n\<close>); the status is the lifecycle
  tag, spelled as \<^verbatim>\<open>newTransactionPool.ts\<close> spells its members.
\<close>

datatype trs_type = SEND | SIGNATURE | VOTE | REFERRAL | STAKE | SENDSTAKE | OTHER nat

datatype TransactionStatus =
  CREATED | QUEUED | QUEUED_AS_CONFLICTED | VERIFIED | DECLINED
  | PUT_IN_POOL | UNCOFIRM_APPLIED | CONFIRMED

text \<open>
  A transaction object. Amounts, fees and timestamps are integers. A recipient that is
  absent in the JavaScript object is the property key it is coerced to when used as an
  index, so \<open>recipientId\<close> is a string here.
\<close>

record transaction =
  trs_id :: string
  trs_type :: trs_type
  senderPublicKey :: string
  senderId :: string
  recipientId :: string
  amount :: int
  fee :: int
  timestamp :: int
  status :: TransactionStatus

text \<open>
  JavaScript passes transactions by reference: the pool, both of its secondary indexes
  and the queues hold the same object, \<^verbatim>\<open>indexOf\<close> compares identities, and
  \<^verbatim>\<open>trs.status = ...\<close> is seen through every alias. A reference is a natural
  number and the store maps every reference to the object it denotes.
\<close>

type_synonym ref = nat

type_synonym store = "ref \<Rightarrow> transaction"

section \<open>JavaScript arrays and objects\<close>

text \<open>
  \<^verbatim>\<open>Array.prototype.sort(compareFn)\<close>: the comparator answers a negative number,
  zero or a positive number. The sort is the stable insertion sort (ECMAScript 2019
  requires stability); elements that compare equal keep their order.
\<close>

fun insert_sorted :: "('a \<Rightarrow> 'a \<Rightarrow> int) \<Rightarrow> 'a \<Rightarrow> 'a list \<Rightarrow> 'a list" where
  "insert_sorted cmp x [] = [x]"
| "insert_sorted cmp x (y # ys) =
     (if cmp x y \<le> 0 then x # y # ys else y # insert_sorted cmp x ys)"

definition array_sort :: "('a \<Rightarrow> 'a \<Rightarrow> int) \<Rightarrow> 'a list \<Rightarrow> 'a list" where
  "array_sort cmp xs = foldr (insert_sorted cmp) xs []"

text \<open>\<^verbatim>\<open>Array.prototype.indexOf\<close>: the first position of the element, or -1.\<close>

fun indexOf :: "'a list \<Rightarrow> 'a \<Rightarrow> int" where
  "indexOf [] x = -1"
| "indexOf (y # ys) x =
     (if y = x then 0 else (let i = indexOf ys x in if i < 0 then -1 else i + 1))"

text \<open>
  \<^verbatim>\<open>Array.prototype.slice(0, end)\<close> for an integer end: a negative end counts
  from the end of the array.
\<close>

definition slice0 :: "int \<Rightarrow> 'a list \<Rightarrow> 'a list" where
  "slice0 e xs =
     (if e < 0 then take (nat (int (length xs) + e)) xs else take (nat e) xs)"

text \<open>
  An object used as a dictionary is the list of its properties in the order they were
  created: \<^verbatim>\<open>o[k]\<close> is \<open>map_of\<close>, \<^verbatim>\<open>o[k] = v\<close> is \<open>AList.update\<close> (in place for a
  key that is there, at the end for a new one) and \<^verbatim>\<open>delete o[k]\<close> is
  \<open>AList.delete\<close>. \<^verbatim>\<open>Object.values\<close> does not list in that order: the keys that
  are array indexes (the decimal numerals without a leading zero of the numbers below
  \<open>2^32 - 1\<close>) come first, by ascending number, and the other keys follow in the order
  of creation.
\<close>

definition digit_of :: "char \<Rightarrow> nat option" where
  "digit_of c =
     (let code = (of_char c :: nat)
      in if 48 \<le> code \<and> code \<le> 57 then Some (code - 48) else None)"

fun decimal_value :: "nat \<Rightarrow> string \<Rightarrow> nat option" where
  "decimal_value n [] = Some n"
| "decimal_value n (c # cs) =
     (case digit_of c of None \<Rightarrow> None | Some d \<Rightarrow> decimal_value (10 * n + d) cs)"

definition array_index :: "string \<Rightarrow> nat option" where
  "array_index k =
     (if k = [] then None
      else if hd k = CHR ''0'' \<and> tl k \<noteq> [] then None
      else case decimal_value 0 k of
             None \<Rightarrow> None
           | Some n \<Rightarrow> if n < 4294967295 then Some n else None)"

definition index_of_key :: "string \<times> 'a \<Rightarrow> nat" where
  "index_of_key kv = (case array_index (fst kv) of None \<Rightarrow> 0 | Some n \<Rightarrow> n)"

definition object_values :: "(string \<times> 'a) list \<Rightarrow> 'a list" where
  "object_values al =
     map snd (sort_key index_of_key (filter (\<lambda>kv. array_index (fst kv) \<noteq> None) al))
     @ map snd (filter (\<lambda>kv. array_index (fst kv) = None) al)"

text \<open>
  JavaScript numbers are doubles. The sums \<^verbatim>\<open>verifyPayload\<close> accumulates start at 0
  and add amounts and fees that are integers, so each value is an integer that a
  double holds, or an infinity: \<open>Finite n\<close> is the double of value \<open>n\<close>. An addition
  rounds the exact sum to the nearest double (53 bits of mantissa, a tie goes to the
  even mantissa) and overflows to an infinity from \<open>2^1024\<close> on.
\<close>

datatype js_number = Finite int | PlusInfinity | MinusInfinity

fun bit_length :: "nat \<Rightarrow> nat" where
  "bit_length n = (if n = 0 then 0 else Suc (bit_length (n div 2)))"

declare bit_length.simps [simp del]

definition round_to_double :: "int \<Rightarrow> js_number" where
  "round_to_double x =
     (let m = nat \<bar>x\<bar>
      in if m < 2 ^ 53 then Finite x
         else
           let e = bit_length m - 53;
               q = m div 2 ^ e;
               r = m mod 2 ^ e;
               q' = (if 2 * r > 2 ^ e \<or> (2 * r = 2 ^ e \<and> odd q) then q + 1 else q);
               y = q' * 2 ^ e
           in if y \<ge> 2 ^ 1024 then (if x > 0 then PlusInfinity else MinusInfinity)
              else Finite (if x > 0 then int y else - int y))"

text \<open>\<^verbatim>\<open>total += n\<close> for a running total and an integer \<open>n\<close>.\<close>

fun number_add :: "js_number \<Rightarrow> int \<Rightarrow> js_number" where
  "number_add (Finite a) n = round_to_double (a + n)"
| "number_add PlusInfinity n = PlusInfinity"
| "number_add MinusInfinity n = MinusInfinity"

text \<open>
  A bucket index \<^verbatim>\<open>{ [key: string]: Array<Transaction> }\<close> read with
  \<^verbatim>\<open>index[key] || []\<close>.
\<close>

definition bucket :: "(string \<rightharpoonup> ref list) \<Rightarrow> string \<Rightarrow> ref list" where
  "bucket index k = (case index k of None \<Rightarrow> [] | Some b \<Rightarrow> b)"

section \<open>Sequence\<close>

text \<open>
  The values \<^verbatim>\<open>Sequence.prototype.add\<close> can be handed: it tests them for
  truthiness, with \<^verbatim>\<open>typeof\<close> and with \<^verbatim>\<open>util.isArray\<close>. An argument that is
  not passed is \<open>Undefined\<close>.
\<close>

datatype js_value =
  Undefined | Null | Boolean bool | Number int | String string
  | Function nat | Array "js_value list" | Object nat

fun truthy :: "js_value \<Rightarrow> bool" where
  "truthy Undefined = False"
| "truthy Null = False"
| "truthy (Boolean b) = b"
| "truthy (Number n) = (n \<noteq> 0)"
| "truthy (String s) = (s \<noteq> [])"
| "truthy (Function f) = True"
| "truthy (Array xs) = True"
| "truthy (Object a) = True"

fun typeof :: "js_value \<Rightarrow> string" where
  "typeof Undefined = ''undefined''"
| "typeof Null = ''object''"
| "typeof (Boolean b) = ''boolean''"
| "typeof (Number n) = ''number''"
| "typeof (String s) = ''string''"
| "typeof (Function f) = ''function''"
| "typeof (Array xs) = ''object''"
| "typeof (Object a) = ''object''"

fun isArray :: "js_value \<Rightarrow> bool" where
  "isArray (Array xs) = True"
| "isArray v = False"

text \<open>A task: \<open>task_args = None\<close> when the task object has no \<^verbatim>\<open>args\<close> property.\<close>

record task =
  task_worker :: js_value
  task_done :: js_value
  task_args :: "js_value option"

record Sequence =
  sequence :: "task list"
  newSequence :: "task list"

definition add :: "js_value \<Rightarrow> js_value \<Rightarrow> js_value \<Rightarrow> Sequence \<Rightarrow> Sequence" where
  "add worker args0 done0 self =
     (let (done1, args1) =
        (if \<not> truthy done0 \<and> truthy args0 \<and> typeof args0 = ''function''
         then (args0, Undefined) else (done0, args0))
      in if truthy worker \<and> typeof worker = ''function''
         then self\<lparr>sequence := sequence self @
                [\<lparr>task_worker = worker, task_done = done1,
                  task_args = (if isArray args1 then Some args1 else None)\<rparr>]\<rparr>
         else self)"

definition count_tasks :: "Sequence \<Rightarrow> nat" where
  "count_tasks self = length (sequence self)"

section \<open>Block verification\<close>

record block =
  block_id :: string
  height :: int
  previousBlock :: "string option"
  block_timestamp :: int
  version :: int
  reward :: int
  totalAmount :: int
  totalFee :: int
  payloadLength :: int
  payloadHash :: string
  numberOfTransactions :: int
  transactions :: "transaction list"

text \<open>
  The entries of \<^verbatim>\<open>result.errors\<close>. \<open>Thrown e\<close> is \<^verbatim>\<open>e.toString()\<close> of an
  exception a collaborator raised; every other constructor is one message of
  \<^verbatim>\<open>verify.js\<close>, with the values the message prints.
\<close>

datatype verify_error =
    Thrown string
  | FailedToVerifySignature
  | InvalidPreviousBlock
  | BlockAlreadyExists
  | BlockSlotTooOld
  | BlockSlotInFuture
  | InvalidBlockVersion
  | InvalidBlockReward int int
  | PayloadTooLong
  | TransactionsCountMismatch
  | TooManyTransactions
  | DuplicateTransaction string
  | InvalidPayloadHash
  | InvalidTotalAmount
  | InvalidTotalFee
  | InvalidPreviousBlockFork "string option" string
  | InvalidBlockTimestamp

record result =
  verified :: bool
  errors :: "verify_error list"

text \<open>
  What \<^verbatim>\<open>verify.js\<close> requires and does not define: the block and transaction
  logic (\<open>Inl e\<close> when the call throws \<open>e\<close>), the hash, the reward schedule, the
  version table, the slot arithmetic (with the slot of the current time), the
  constants and the list \<^verbatim>\<open>exceptions.blockRewards\<close>.
\<close>

record library =
  verifySignature :: "block \<Rightarrow> string + bool"
  getId :: "block \<Rightarrow> string + string"
  getBytes :: "transaction \<Rightarrow> string + nat list"
  sha256_hex :: "nat list \<Rightarrow> string"
  calcReward :: "int \<Rightarrow> int"
  isValid :: "int \<Rightarrow> int \<Rightarrow> bool"
  getSlotNumber :: "int \<Rightarrow> int"
  currentSlot :: int
  MASTER_NODE_MIGRATED_BLOCK :: int
  maxPayloadLength :: int
  maxTxsPerBlock :: int
  blockSlotWindow :: int
  blockRewards :: "string list"

definition push_error :: "verify_error \<Rightarrow> result \<Rightarrow> result" where
  "push_error e r = r\<lparr>errors := errors r @ [e]\<rparr>"

definition setHeight :: "block \<Rightarrow> block \<Rightarrow> block" where
  "setHeight b lastBlock = b\<lparr>height := height lastBlock + 1\<rparr>"

definition verifySignature_step :: "library \<Rightarrow> block \<Rightarrow> result \<Rightarrow> result" where
  "verifySignature_step lib b r =
     (let (valid, r1) =
        (case verifySignature lib b of
           Inl e \<Rightarrow> (False, push_error (Thrown e) r)
         | Inr v \<Rightarrow> (v, r))
      in if \<not> valid
         then (if height b > MASTER_NODE_MIGRATED_BLOCK lib
               then push_error FailedToVerifySignature r1 else r1)
         else r1)"

text \<open>\<^verbatim>\<open>!block.previousBlock\<close> holds for a missing and for an empty id.\<close>

definition falsy_id :: "string option \<Rightarrow> bool" where
  "falsy_id p = (case p of None \<Rightarrow> True | Some i \<Rightarrow> i = [])"

definition verifyPreviousBlock :: "block \<Rightarrow> result \<Rightarrow> result" where
  "verifyPreviousBlock b r =
     (if falsy_id (previousBlock b) \<and> height b \<noteq> 1
      then push_error InvalidPreviousBlock r else r)"

definition verifyAgainstLastNBlockIds :: "string list \<Rightarrow> block \<Rightarrow> result \<Rightarrow> result" where
  "verifyAgainstLastNBlockIds lastNBlockIds b r =
     (if indexOf lastNBlockIds (block_id b) \<noteq> -1
      then push_error BlockAlreadyExists r else r)"

definition verifyVersion :: "library \<Rightarrow> block \<Rightarrow> result \<Rightarrow> result" where
  "verifyVersion lib b r =
     (if \<not> isValid lib (version b) (height b)
      then push_error InvalidBlockVersion r else r)"

definition verifyReward :: "library \<Rightarrow> block \<Rightarrow> result \<Rightarrow> block \<times> result" where
  "verifyReward lib b r =
     (let expectedReward0 = calcReward lib (height b);
          (expectedReward, b1) =
            (if height b > 21000000 then (0, b\<lparr>reward := 0\<rparr>) else (expectedReward0, b))
      in if height b1 \<noteq> 1 \<and> expectedReward \<noteq> reward b1
            \<and> indexOf (blockRewards lib) (block_id b1) = -1
         then (b1, push_error (InvalidBlockReward (reward b1) expectedReward) r)
         else (b1, r))"

definition verifyId :: "library \<Rightarrow> block \<Rightarrow> result \<Rightarrow> block \<times> result" where
  "verifyId lib b r =
     (case getId lib b of
        Inr i \<Rightarrow> (b\<lparr>block_id := i\<rparr>, r)
      | Inl e \<Rightarrow> (b, push_error (Thrown e) r))"

text \<open>
  The loop of \<^verbatim>\<open>verifyPayload\<close> over \<^verbatim>\<open>block.transactions\<close>: the errors pushed
  so far, the ids seen (\<^verbatim>\<open>appliedTransactions\<close>), the bytes fed to the hash and the
  two running sums, which are doubles. The amounts, the fees and the totals a block
  declares are integers that a double holds.
\<close>

record payload_scan =
  scan_errors :: "verify_error list"
  appliedTransactions :: "string \<rightharpoonup> transaction"
  hashed :: "nat list"
  scan_totalAmount :: js_number
  scan_totalFee :: js_number

fun scan_transactions :: "library \<Rightarrow> transaction list \<Rightarrow> payload_scan \<Rightarrow> payload_scan" where
  "scan_transactions lib [] a = a"
| "scan_transactions lib (t # ts) a =
     (let bytes = getBytes lib t;
          a1 = (case bytes of
                  Inl e \<Rightarrow> a\<lparr>scan_errors := scan_errors a @ [Thrown e]\<rparr>
                | Inr b \<Rightarrow> a);
          a2 = (if appliedTransactions a1 (trs_id t) \<noteq> None
                then a1\<lparr>scan_errors := scan_errors a1 @ [DuplicateTransaction (trs_id t)]\<rparr>
                else a1);
          a3 = a2\<lparr>appliedTransactions := (appliedTransactions a2)(trs_id t \<mapsto> t)\<rparr>;
          a4 = (case bytes of
                  Inl e \<Rightarrow> a3
                | Inr b \<Rightarrow> a3\<lparr>hashed := hashed a3 @ b\<rparr>)
      in scan_transactions lib ts
           (a4\<lparr>scan_totalAmount := number_add (scan_totalAmount a4) (amount t),
               scan_totalFee := number_add (scan_totalFee a4) (fee t)\<rparr>))"

definition verifyPayload :: "library \<Rightarrow> block \<Rightarrow> result \<Rightarrow> result" where
  "verifyPayload lib b r =
     (let r1 = (if payloadLength b > maxPayloadLength lib
                then push_error PayloadTooLong r else r);
          r2 = (if int (length (transactions b)) \<noteq> numberOfTransactions b
                   \<and> height b > MASTER_NODE_MIGRATED_BLOCK lib
                then push_error TransactionsCountMismatch r1 else r1);
          r3 = (if int (length (transactions b)) > maxTxsPerBlock lib
                then push_error TooManyTransactions r2 else r2);
          a = scan_transactions lib (transactions b)
                \<lparr>scan_errors = errors r3, appliedTransactions = Map.empty, hashed = [],
                 scan_totalAmount = Finite 0, scan_totalFee = Finite 0\<rparr>;
          r4 = r3\<lparr>errors := scan_errors a\<rparr>;
          r5 = (if sha256_hex lib (hashed a) \<noteq> payloadHash b
                then (if height b > MASTER_NODE_MIGRATED_BLOCK lib
                      then push_error InvalidPayloadHash r4 else r4)
                else r4);
          r6 = (if scan_totalAmount a \<noteq> Finite (totalAmount b)
                then (if height b > MASTER_NODE_MIGRATED_BLOCK lib
                      then push_error InvalidTotalAmount r5 else r5)
                else r5);
          r7 = (if scan_totalFee a \<noteq> Finite (totalFee b)
                then (if height b > MASTER_NODE_MIGRATED_BLOCK lib
                      then push_error InvalidTotalFee r6 else r6)
                else r6)
      in r7)"

text \<open>
  \<^verbatim>\<open>verifyForkOne\<close> also tells the delegates module of the fork
  (\<^verbatim>\<open>modules.delegates.fork(block, 1)\<close>): the second component counts these calls.
\<close>

definition verifyForkOne :: "block \<Rightarrow> block \<Rightarrow> result \<times> nat \<Rightarrow> result \<times> nat" where
  "verifyForkOne b lastBlock rf =
     (if \<not> falsy_id (previousBlock b) \<and> previousBlock b \<noteq> Some (block_id lastBlock)
      then (push_error (InvalidPreviousBlockFork (previousBlock b) (block_id lastBlock)) (fst rf),
            Suc (snd rf))
      else rf)"

definition verifyBlockSlot :: "library \<Rightarrow> block \<Rightarrow> block \<Rightarrow> result \<Rightarrow> result" where
  "verifyBlockSlot lib b lastBlock r =
     (let blockSlotNumber = getSlotNumber lib (block_timestamp b);
          lastBlockSlotNumber = getSlotNumber lib (block_timestamp lastBlock)
      in if blockSlotNumber > currentSlot lib \<or> blockSlotNumber \<le> lastBlockSlotNumber
         then push_error InvalidBlockTimestamp r else r)"

definition verifyBlockSlotWindow :: "library \<Rightarrow> block \<Rightarrow> result \<Rightarrow> result" where
  "verifyBlockSlotWindow lib b r =
     (let currentApplicationSlot = currentSlot lib;
          blockSlot = getSlotNumber lib (block_timestamp b);
          r1 = (if currentApplicationSlot - blockSlot > blockSlotWindow lib
                then push_error BlockSlotTooOld r else r)
      in if currentApplicationSlot < blockSlot
         then push_error BlockSlotInFuture r1 else r1)"

definition finish :: "result \<Rightarrow> result" where
  "finish r = \<lparr>verified = (length (errors r) = 0), errors = rev (errors r)\<rparr>"

definition verifyReceipt :: "library \<Rightarrow> string list \<Rightarrow> block \<Rightarrow> block \<Rightarrow> block \<times> result" where
  "verifyReceipt lib lastNBlockIds lastBlock b0 =
     (let b = setHeight b0 lastBlock;
          r0 = \<lparr>verified = False, errors = []\<rparr>;
          r1 = verifySignature_step lib b r0;
          r2 = verifyPreviousBlock b r1;
          r3 = verifyAgainstLastNBlockIds lastNBlockIds b r2;
          r4 = verifyBlockSlotWindow lib b r3;
          r5 = verifyVersion lib b r4;
          (b1, r6) = verifyId lib b r5;
          r7 = verifyPayload lib b1 r6
      in (b1, finish r7))"

definition verifyBlock :: "library \<Rightarrow> block \<Rightarrow> block \<Rightarrow> block \<times> result \<times> nat" where
  "verifyBlock lib lastBlock b0 =
     (let b = setHeight b0 lastBlock;
          r0 = \<lparr>verified = False, errors = []\<rparr>;
          r1 = verifySignature_step lib b r0;
          r2 = verifyPreviousBlock b r1;
          r3 = verifyVersion lib b r2;
          (b1, r4) = verifyId lib b r3;
          r5 = verifyPayload lib b1 r4;
          (r6, forks) = verifyForkOne b1 lastBlock (r5, 0);
          r7 = verifyBlockSlot lib b1 lastBlock r6
      in (b1, finish r7, forks))"

section \<open>TransactionPool\<close>

record account =
  address :: string
  publicKey :: string
  balance :: int
  u_balance :: int

text \<open>
  What \<^verbatim>\<open>newTransactionPool.ts\<close> imports or is constructed with and does not
  define. The transaction logic and the account store work on a ledger of their own,
  of a type \<open>'l\<close> the pool never looks into: each call takes the ledger and returns the
  new one, with \<open>False\<close> when the promise is rejected (the call throws). The clock
  (\<^verbatim>\<open>new Date().getTime()\<close>, in milliseconds) is read from the ledger as well. The
  collaborators do not touch the pool, the queues or the transaction objects.
\<close>

record 'l scope =
  generateAddressByPublicKey :: "string \<Rightarrow> string"
  transactionSortFunc :: "transaction \<Rightarrow> transaction \<Rightarrow> int"
  newApplyUnconfirmed :: "transaction \<Rightarrow> 'l \<Rightarrow> bool \<times> 'l"
  newUndoUnconfirmed :: "transaction \<Rightarrow> 'l \<Rightarrow> bool \<times> 'l"
  newVerify :: "transaction \<Rightarrow> account \<Rightarrow> 'l \<Rightarrow> bool \<times> 'l"
  newVerifyUnconfirmed :: "transaction \<Rightarrow> account \<Rightarrow> 'l \<Rightarrow> bool \<times> 'l"
  getOrCreateAccount :: "string \<Rightarrow> 'l \<Rightarrow> account option \<times> 'l"
  getTime :: "'l \<Rightarrow> int"
  TRANSACTION_QUEUE_EXPIRE :: int

text \<open>
  The pool object, with the store of the transaction objects, the ledger and the
  messages sent on the bus (\<^verbatim>\<open>transactionPutInPool\<close>). \<open>pool\<close> is the object
  \<^verbatim>\<open>{ [transactionId: string]: Transaction }\<close> as the list of its properties in
  the order they were created. Transaction ids are not names of properties of
  \<^verbatim>\<open>Object.prototype\<close>.
\<close>

record 'l TransactionPool =
  store :: store
  ledger :: 'l
  bus :: "ref list"
  pool :: "(string \<times> ref) list"
  poolByRecipient :: "string \<rightharpoonup> ref list"
  poolBySender :: "string \<rightharpoonup> ref list"
  locked :: bool

datatype js_error = TypeError

definition set_status :: "ref \<Rightarrow> TransactionStatus \<Rightarrow> 'l TransactionPool \<Rightarrow> 'l TransactionPool" where
  "set_status trs st p = p\<lparr>store := (store p)(trs := (store p trs)\<lparr>status := st\<rparr>)\<rparr>"

definition getTransactionsByRecipientId :: "'l TransactionPool \<Rightarrow> string \<Rightarrow> ref list" where
  "getTransactionsByRecipientId p recipient = bucket (poolByRecipient p) recipient"

definition getTransactionsBySenderId :: "'l TransactionPool \<Rightarrow> string \<Rightarrow> ref list" where
  "getTransactionsBySenderId p sender = bucket (poolBySender p) sender"

definition get :: "'l TransactionPool \<Rightarrow> string \<Rightarrow> ref option" where
  "get p i = map_of (pool p) i"

definition has :: "'l TransactionPool \<Rightarrow> ref \<Rightarrow> bool" where
  "has p trs = (map_of (pool p) (trs_id (store p trs)) \<noteq> None)"

definition getSize :: "'l TransactionPool \<Rightarrow> nat" where
  "getSize p = length (map fst (pool p))"

definition isPotentialConflict :: "'l scope \<Rightarrow> 'l TransactionPool \<Rightarrow> ref \<Rightarrow> bool" where
  "isPotentialConflict sc p trs =
     (let sender = generateAddressByPublicKey sc (senderPublicKey (store p trs));
          recipientTrs = bucket (poolByRecipient p) sender;
          senderTrs = bucket (poolBySender p) sender;
          dependTransactions = recipientTrs @ senderTrs
      in if length dependTransactions = 0 then False
         else if trs_type (store p trs) = SIGNATURE then True
         else if trs_type (store p trs) = VOTE
                 \<and> find (\<lambda>t. trs_type (store p t) = VOTE) dependTransactions \<noteq> None then True
         else if trs_type (store p trs) = REFERRAL
                 \<and> find (\<lambda>t. trs_type (store p t) = REFERRAL) dependTransactions \<noteq> None then True
         else
           let sorted = array_sort (\<lambda>a b. transactionSortFunc sc (store p a) (store p b))
                          (dependTransactions @ [trs])
           in indexOf sorted trs \<noteq> int (length sorted) - 1)"

definition push :: "'l scope \<Rightarrow> ref \<Rightarrow> bool \<Rightarrow> bool \<Rightarrow> 'l TransactionPool \<Rightarrow> bool \<times> 'l TransactionPool" where
  "push sc trs broadcast force p =
     (if locked p \<and> \<not> force then (False, p)
      else if has p trs then (False, p)
      else if isPotentialConflict sc p trs
      then (False, p\<lparr>pool := AList.delete (trs_id (store p trs)) (pool p)\<rparr>)
      else
        let p1 = p\<lparr>pool := AList.update (trs_id (store p trs)) trs (pool p)\<rparr>;
            p2 = set_status trs PUT_IN_POOL p1;
            t = store p2 trs;
            p3 = p2\<lparr>poolBySender :=
                   (poolBySender p2)(senderId t \<mapsto> bucket (poolBySender p2) (senderId t) @ [trs])\<rparr>;
            p4 = (if trs_type t = SEND
                  then p3\<lparr>poolByRecipient :=
                         (poolByRecipient p3)(recipientId t \<mapsto>
                            bucket (poolByRecipient p3) (recipientId t) @ [trs])\<rparr>
                  else p3);
            (applied, l) = newApplyUnconfirmed sc t (ledger p4);
            p5 = p4\<lparr>ledger := l\<rparr>
        in if applied
           then
             let p6 = set_status trs UNCOFIRM_APPLIED p5
             in (True, if broadcast then p6\<lparr>bus := bus p6 @ [trs]\<rparr> else p6)
           else
             (False, set_status trs DECLINED (p5\<lparr>pool := AList.delete (trs_id t) (pool p5)\<rparr>)))"

text \<open>
  \<^verbatim>\<open>remove\<close>: a failure of \<^verbatim>\<open>newUndoUnconfirmed\<close> is caught and logged. Reading
  \<^verbatim>\<open>this.poolBySender[trs.senderId].filter\<close> where the sender has no bucket throws a
  TypeError, after the transaction was deleted from \<open>pool\<close>.
\<close>

definition remove_trs :: "'l scope \<Rightarrow> ref \<Rightarrow> 'l TransactionPool \<Rightarrow> (js_error + bool) \<times> 'l TransactionPool" where
  "remove_trs sc trs p =
     (let t = store p trs
      in if map_of (pool p) (trs_id t) = None then (Inr False, p)
         else
           let p1 = p\<lparr>ledger := snd (newUndoUnconfirmed sc t (ledger p))\<rparr>;
               p2 = p1\<lparr>pool := AList.delete (trs_id t) (pool p1)\<rparr>
           in case poolBySender p2 (senderId t) of
                None \<Rightarrow> (Inl TypeError, p2)
              | Some b \<Rightarrow>
                  let p3 = p2\<lparr>poolBySender := (poolBySender p2)(senderId t \<mapsto>
                                filter (\<lambda>r. trs_id (store p2 r) \<noteq> trs_id t) b)\<rparr>;
                      p4 = p3\<lparr>poolByRecipient := (poolByRecipient p3)(recipientId t \<mapsto>
                                filter (\<lambda>r. trs_id (store p3 r) \<noteq> trs_id t)
                                  (bucket (poolByRecipient p3) (recipientId t)))\<rparr>
                  in (Inr True, p4))"

text \<open>
  \<^verbatim>\<open>pop\<close> does not await \<^verbatim>\<open>remove\<close>: it returns the stored object whatever
  \<^verbatim>\<open>remove\<close> ends with. The removal is run to its end here.
\<close>

definition pop :: "'l scope \<Rightarrow> ref \<Rightarrow> 'l TransactionPool \<Rightarrow> ref option \<times> 'l TransactionPool" where
  "pop sc trs p =
     (let deletedValue = get p (trs_id (store p trs))
      in (deletedValue, snd (remove_trs sc trs p)))"

text \<open>
  The loop of \<^verbatim>\<open>removeTransactionBySenderId\<close> and
  \<^verbatim>\<open>removeTransactionByRecipientId\<close> over the bucket read at the start (\<^verbatim>\<open>remove\<close>
  replaces a bucket by a new array, it does not change the one iterated): the
  transactions \<^verbatim>\<open>remove\<close> answered true for are collected, and an exception ends
  the loop.
\<close>

fun remove_collect ::
  "'l scope \<Rightarrow> ref list \<Rightarrow> ref list \<Rightarrow> 'l TransactionPool \<Rightarrow> (js_error + ref list) \<times> 'l TransactionPool" where
  "remove_collect sc [] removedTransactions p = (Inr removedTransactions, p)"
| "remove_collect sc (trs # rest) removedTransactions p =
     (case remove_trs sc trs p of
        (Inl e, p') \<Rightarrow> (Inl e, p')
      | (Inr removed, p') \<Rightarrow>
          remove_collect sc rest
            (if removed then removedTransactions @ [trs] else removedTransactions) p')"

definition removeTransactionBySenderId ::
  "'l scope \<Rightarrow> string \<Rightarrow> 'l TransactionPool \<Rightarrow> (js_error + ref list) \<times> 'l TransactionPool" where
  "removeTransactionBySenderId sc sender p =
     remove_collect sc (getTransactionsBySenderId p sender) [] p"

definition removeTransactionByRecipientId ::
  "'l scope \<Rightarrow> string \<Rightarrow> 'l TransactionPool \<Rightarrow> (js_error + ref list) \<times> 'l TransactionPool" where
  "removeTransactionByRecipientId sc recipient p =
     remove_collect sc (getTransactionsByRecipientId p recipient) [] p"

text \<open>The loop of \<^verbatim>\<open>popSortedUnconfirmedTransactions\<close>: the answers are not read.\<close>

fun remove_each ::
  "'l scope \<Rightarrow> ref list \<Rightarrow> 'l TransactionPool \<Rightarrow> (js_error + unit) \<times> 'l TransactionPool" where
  "remove_each sc [] p = (Inr (), p)"
| "remove_each sc (trs # rest) p =
     (case remove_trs sc trs p of
        (Inl e, p') \<Rightarrow> (Inl e, p')
      | (Inr removed, p') \<Rightarrow> remove_each sc rest p')"

definition popSortedUnconfirmedTransactions ::
  "'l scope \<Rightarrow> int \<Rightarrow> 'l TransactionPool \<Rightarrow> (js_error + ref list) \<times> 'l TransactionPool" where
  "popSortedUnconfirmedTransactions sc limit p =
     (let trss = slice0 limit
           (array_sort (\<lambda>a b. transactionSortFunc sc (store p a) (store p b))
              (object_values (pool p)))
      in case remove_each sc trss p of
           (Inl e, p') \<Rightarrow> (Inl e, p')
         | (Inr u, p') \<Rightarrow> (Inr trss, p'))"

section \<open>TransactionQueue\<close>

text \<open>
  The queue object with the pool it is constructed with. \<open>sent\<close> lists the
  \<^verbatim>\<open>pool/verify\<close> messages handed to the account sessions: the address and the
  \<^verbatim>\<open>verified\<close> flag.
\<close>

record 'l TransactionQueue =
  transactionPool :: "'l TransactionPool"
  queue :: "ref list"
  conflictedQueue :: "(ref \<times> int) list"
  queue_locked :: bool
  sent :: "(string \<times> bool) list"

definition queue_pop :: "'l TransactionQueue \<Rightarrow> ref option \<times> 'l TransactionQueue" where
  "queue_pop q = (case queue q of [] \<Rightarrow> (None, q) | trs # rest \<Rightarrow> (Some trs, q\<lparr>queue := rest\<rparr>))"




text \<open>
  \<^verbatim>\<open>process\<close> is asynchronous and is started without being awaited, by
  \<^verbatim>\<open>push\<close> and by itself. Here one call of \<^verbatim>\<open>process\<close> runs its body to the end,
  and every function that starts \<^verbatim>\<open>process\<close> answers how many calls it started
  next to the state: the calls take no argument, so their number says all.
\<close>

definition queue_push :: "'l scope \<Rightarrow> ref \<Rightarrow> 'l TransactionQueue \<Rightarrow> 'l TransactionQueue \<times> nat" where
  "queue_push sc trs q =
     (let q1 = q\<lparr>transactionPool := set_status trs QUEUED (transactionPool q)\<rparr>;
          q2 = q1\<lparr>queue := queue q1 @ [trs]\<rparr>
      in if length (queue q2) = 1 then (q2, 1)
         else
           (q2\<lparr>queue := array_sort
                  (\<lambda>a b. transactionSortFunc sc (store (transactionPool q2) a)
                                               (store (transactionPool q2) b))
                  (queue q2)\<rparr>, 0))"

definition pushInConflictedQueue :: "'l scope \<Rightarrow> ref \<Rightarrow> 'l TransactionQueue \<Rightarrow> 'l TransactionQueue" where
  "pushInConflictedQueue sc trs q =
     (let q1 = q\<lparr>conflictedQueue := conflictedQueue q @
                  [(trs, getTime sc (ledger (transactionPool q)) div 1000
                           + TRANSACTION_QUEUE_EXPIRE sc)]\<rparr>
      in q1\<lparr>transactionPool := set_status trs QUEUED_AS_CONFLICTED (transactionPool q1)\<rparr>)"

definition sendVerifiedMessage :: "string \<Rightarrow> bool \<Rightarrow> 'l TransactionQueue \<Rightarrow> 'l TransactionQueue" where
  "sendVerifiedMessage addr ok q = q\<lparr>sent := sent q @ [(addr, ok)]\<rparr>"

definition set_ledger :: "'l \<Rightarrow> 'l TransactionQueue \<Rightarrow> 'l TransactionQueue" where
  "set_ledger l q = q\<lparr>transactionPool := (transactionPool q)\<lparr>ledger := l\<rparr>\<rparr>"

definition verify :: "'l scope \<Rightarrow> ref \<Rightarrow> account \<Rightarrow> 'l TransactionQueue \<Rightarrow> bool \<times> 'l TransactionQueue" where
  "verify sc trs sender q =
     (let t = store (transactionPool q) trs;
          (ok1, l1) = newVerify sc t sender (ledger (transactionPool q));
          q1 = set_ledger l1 q
      in if \<not> ok1 then (False, sendVerifiedMessage (address sender) False q1)
         else
           let (ok2, l2) = newVerifyUnconfirmed sc t sender l1;
               q2 = set_ledger l2 q1
           in if \<not> ok2 then (False, sendVerifiedMessage (address sender) False q2)
              else (True, sendVerifiedMessage (address sender) True q2))"

text \<open>
  One call of \<^verbatim>\<open>process\<close>. A rejected \<^verbatim>\<open>getOrCreateAccount\<close> ends the call
  where it stands.
\<close>

definition process :: "'l scope \<Rightarrow> 'l TransactionQueue \<Rightarrow> 'l TransactionQueue \<times> nat" where
  "process sc q =
     (if length (queue q) = 0 \<or> queue_locked q then (q, 0)
      else
        let trs = hd (queue q);
            q1 = snd (queue_pop q)
        in if has (transactionPool q1) trs then (q1, 0)
           else if isPotentialConflict sc (transactionPool q1) trs
           then (pushInConflictedQueue sc trs q1, 1)
           else
             let (found, l) = getOrCreateAccount sc
                   (senderPublicKey (store (transactionPool q1) trs)) (ledger (transactionPool q1));
                 q2 = set_ledger l q1
             in case found of
                  None \<Rightarrow> (q2, 0)
                | Some sender \<Rightarrow>
                    let (verifyStatus, q3) = verify sc trs sender q2
                    in if \<not> verifyStatus
                       then (q3\<lparr>transactionPool := set_status trs DECLINED (transactionPool q3)\<rparr>, 1)
                       else
                         let q4 = q3\<lparr>transactionPool := set_status trs VERIFIED (transactionPool q3)\<rparr>;
                             (pushed, p) = (if \<not> queue_locked q4
                                            then push sc trs True False (transactionPool q4)
                                            else (False, transactionPool q4));
                             q5 = q4\<lparr>transactionPool := p\<rparr>
                         in if pushed then (q5, 1)
                            else
                              let (q6, started) = queue_push sc trs q5
                              in (q6, started + 1))"

section \<open>Auxiliary definitions for the statements\<close>

text \<open>
  What one transaction of the block contributes in the loop of \<^verbatim>\<open>verifyPayload\<close>:
  the bytes fed to the rolling hash (none when \<^verbatim>\<open>getBytes\<close> throws), and the errors
  pushed for it when the ids in \<open>seen\<close> were met before.
\<close>

definition tx_bytes :: "library \<Rightarrow> transaction \<Rightarrow> nat list" where
  "tx_bytes lib t = (case getBytes lib t of Inl e \<Rightarrow> [] | Inr b \<Rightarrow> b)"

definition tx_errors :: "library \<Rightarrow> (string \<rightharpoonup> transaction) \<Rightarrow> transaction \<Rightarrow> verify_error list" where
  "tx_errors lib seen t =
     (case getBytes lib t of Inl e \<Rightarrow> [Thrown e] | Inr b \<Rightarrow> []) @
     (if seen (trs_id t) \<noteq> None then [DuplicateTransaction (trs_id t)] else [])"

text \<open>
  The value of the running total of \<^verbatim>\<open>verifyPayload\<close> after the loop added the
  numbers of a list to it one by one, from 0: a sum of doubles, taken from left to
  right.
\<close>

definition accumulate :: "int list \<Rightarrow> js_number" where
  "accumulate ns = foldl number_add (Finite 0) ns"

text \<open>
  A comparator is consistent when any two elements are ordered one way or the other
  and the order is transitive; \<^verbatim>\<open>Array.prototype.sort\<close> promises a sorted result
  for such comparators only.
\<close>

definition consistent_comparator :: "('a \<Rightarrow> 'a \<Rightarrow> int) \<Rightarrow> bool" where
  "consistent_comparator cmp =
     ((\<forall>a b. cmp a b \<le> 0 \<or> cmp b a \<le> 0)
      \<and> (\<forall>a b c. cmp a b \<le> 0 \<and> cmp b c \<le> 0 \<longrightarrow> cmp a c \<le> 0))"

section \<open>Concrete inputs\<close>

text \<open>
  A library whose collaborators always succeed: every block hashes to the id
  \<open>''recomputed''\<close>, every transaction has no bytes, the payload hash is \<open>''h''\<close>, the
  reward is 5 at every height and the migration height is 100.
\<close>

definition lib0 :: library where
  "lib0 = \<lparr>verifySignature = (\<lambda>b. Inr True), getId = (\<lambda>b. Inr ''recomputed''),
     getBytes = (\<lambda>t. Inr []), sha256_hex = (\<lambda>bs. ''h''), calcReward = (\<lambda>h. 5),
     isValid = (\<lambda>v h. True), getSlotNumber = (\<lambda>t. t), currentSlot = 10,
     MASTER_NODE_MIGRATED_BLOCK = 100, maxPayloadLength = 1000, maxTxsPerBlock = 25,
     blockSlotWindow = 5, blockRewards = [''exempt'']\<rparr>"

definition trs0 :: transaction where
  "trs0 = \<lparr>trs_id = ''1'', trs_type = SEND, senderPublicKey = ''pkA'', senderId = ''A'',
     recipientId = ''B'', amount = 10, fee = 1, timestamp = 100, status = CREATED\<rparr>"

definition result0 :: result where
  "result0 = \<lparr>verified = False, errors = []\<rparr>"

definition lastBlock0 :: block where
  "lastBlock0 = \<lparr>block_id = ''last'', height = 1, previousBlock = None, block_timestamp = 4,
     version = 1, reward = 0, totalAmount = 0, totalFee = 0, payloadLength = 0,
     payloadHash = ''h'', numberOfTransactions = 0, transactions = []\<rparr>"

text \<open>An empty block on top of \<open>lastBlock0\<close> that declares the id \<open>''declared''\<close>.\<close>

definition block0 :: block where
  "block0 = \<lparr>block_id = ''declared'', height = 2, previousBlock = Some ''last'',
     block_timestamp = 5, version = 1, reward = 5, totalAmount = 0, totalFee = 0,
     payloadLength = 0, payloadHash = ''h'', numberOfTransactions = 0, transactions = []\<rparr>"

text \<open>
  A block at height 2, below the migration height, that holds the transaction
  \<open>trs0\<close> twice and declares no transaction, a total amount of 0 and a total fee of 0.
\<close>

definition block1 :: block where
  "block1 = block0\<lparr>transactions := [trs0, trs0]\<rparr>"

text \<open>The same block above the migration height.\<close>

definition block2 :: block where
  "block2 = block1\<lparr>height := 101\<rparr>"

text \<open>
  Two blocks above the migration height whose amounts leave the range in which
  doubles hold every integer. The first holds the amounts \<open>2^53\<close>, 1 and 1 and declares
  their sum \<open>2^53 + 2\<close>; the second holds \<open>2^53\<close> and 1 and declares \<open>2^53\<close>. All fees
  are 0.
\<close>

definition block3 :: block where
  "block3 = block0\<lparr>height := 101, numberOfTransactions := 3,
     totalAmount := 9007199254740994,
     transactions :=
       [trs0\<lparr>amount := 9007199254740992, fee := 0\<rparr>,
        trs0\<lparr>trs_id := ''2'', amount := 1, fee := 0\<rparr>,
        trs0\<lparr>trs_id := ''3'', amount := 1, fee := 0\<rparr>]\<rparr>"

definition block4 :: block where
  "block4 = block0\<lparr>height := 101, numberOfTransactions := 2,
     totalAmount := 9007199254740992,
     transactions :=
       [trs0\<lparr>amount := 9007199254740992, fee := 0\<rparr>,
        trs0\<lparr>trs_id := ''2'', amount := 1, fee := 0\<rparr>]\<rparr>"

section \<open>The pool's invariants\<close>

text \<open>
  Membership of a transaction object in the three indexes, as invariant P1 of the
  specification reads it: \<open>byId\<close> holds the object under its id, and the buckets
  looked at are the ones of the object's own sender and recipient.
\<close>

definition in_byId :: "'l TransactionPool \<Rightarrow> ref \<Rightarrow> bool" where
  "in_byId p t = (map_of (pool p) (trs_id (store p t)) = Some t)"

definition in_bySender :: "'l TransactionPool \<Rightarrow> ref \<Rightarrow> bool" where
  "in_bySender p t = (t \<in> set (bucket (poolBySender p) (senderId (store p t))))"

definition in_byRecipient :: "'l TransactionPool \<Rightarrow> ref \<Rightarrow> bool" where
  "in_byRecipient p t = (t \<in> set (bucket (poolByRecipient p) (recipientId (store p t))))"

definition P1 :: "'l TransactionPool \<Rightarrow> bool" where
  "P1 p = (\<forall>t. (in_byId p t \<longleftrightarrow> in_bySender p t)
             \<and> (in_byRecipient p t \<longleftrightarrow> in_byId p t \<and> trs_type (store p t) = SEND))"

text \<open>
  The transaction is in none of the three indexes: no object is stored under its id,
  and the buckets of its sender and of its recipient hold no object with its id (so
  not the transaction itself either).
\<close>

definition absent :: "'l TransactionPool \<Rightarrow> ref \<Rightarrow> bool" where
  "absent p t =
     (map_of (pool p) (trs_id (store p t)) = None
      \<and> (\<forall>r \<in> set (bucket (poolBySender p) (senderId (store p t))).
            trs_id (store p r) \<noteq> trs_id (store p t))
      \<and> (\<forall>r \<in> set (bucket (poolByRecipient p) (recipientId (store p t))).
            trs_id (store p r) \<noteq> trs_id (store p t)))"

text \<open>
  What every state of the pool satisfies, whatever was pushed and removed: the keys
  of \<open>pool\<close> are distinct, each object is stored under its own id, and its sender has a
  bucket.
\<close>

definition pool_wf :: "'l TransactionPool \<Rightarrow> bool" where
  "pool_wf p =
     (distinct (map fst (pool p))
      \<and> (\<forall>(k, t) \<in> set (pool p).
            trs_id (store p t) = k \<and> poolBySender p (senderId (store p t)) \<noteq> None))"

text \<open>
  The invariant that the operations keep as long as the indexes are in step, and that
  implies P1: every member of a sender bucket is stored and has that sender, every
  member of a recipient bucket is stored, has that recipient and is a SEND, and every
  stored transaction is in the bucket of its sender and, if it is a SEND, in the
  bucket of its recipient.
\<close>

definition pool_inv :: "'l TransactionPool \<Rightarrow> bool" where
  "pool_inv p =
     (pool_wf p
      \<and> (\<forall>s t. t \<in> set (bucket (poolBySender p) s) \<longrightarrow>
            senderId (store p t) = s \<and> in_byId p t)
      \<and> (\<forall>k t. t \<in> set (bucket (poolByRecipient p) k) \<longrightarrow>
            recipientId (store p t) = k \<and> trs_type (store p t) = SEND \<and> in_byId p t)
      \<and> (\<forall>t. in_byId p t \<longrightarrow>
            in_bySender p t \<and> (trs_type (store p t) = SEND \<longrightarrow> in_byRecipient p t)))"

text \<open>
  The argument of \<^verbatim>\<open>remove\<close> agrees with the object stored under its id in the
  sender and the recipient (it does when it is that object).
\<close>

definition agrees_with_stored :: "'l TransactionPool \<Rightarrow> ref \<Rightarrow> bool" where
  "agrees_with_stored p t =
     (case map_of (pool p) (trs_id (store p t)) of
        None \<Rightarrow> True
      | Some r \<Rightarrow> senderId (store p r) = senderId (store p t)
                 \<and> recipientId (store p r) = recipientId (store p t))"

text \<open>
  \<^verbatim>\<open>remove\<close> called on each transaction of a list in turn, as the specification
  words \<^verbatim>\<open>popSortedUnconfirmedTransactions\<close>.
\<close>

definition remove_in_order :: "'l scope \<Rightarrow> ref list \<Rightarrow> 'l TransactionPool \<Rightarrow> 'l TransactionPool" where
  "remove_in_order sc ts p = foldl (\<lambda>p' t. snd (remove_trs sc t p')) p ts"

section \<open>Concrete pools\<close>

text \<open>
  Four transaction objects: 0 is \<open>trs0\<close> (id 1, a SEND from A to B), 1 is a VOTE of A
  with id 2, 2 is a SEND from C to D with id 3, and 3 is another object with the id of
  0 that names C as the sender and D as the recipient. Every other reference denotes a
  transaction with the id 0 of a sender Z.
\<close>

definition store0 :: store where
  "store0 = (\<lambda>r. trs0\<lparr>trs_id := ''0'', senderPublicKey := ''pkZ'', senderId := ''Z'',
                       recipientId := ''Z''\<rparr>)
     (0 := trs0,
      1 := trs0\<lparr>trs_id := ''2'', trs_type := VOTE, timestamp := 50\<rparr>,
      2 := trs0\<lparr>trs_id := ''3'', senderPublicKey := ''pkC'', senderId := ''C'',
                 recipientId := ''D''\<rparr>,
      3 := trs0\<lparr>senderPublicKey := ''pkC'', senderId := ''C'', recipientId := ''D''\<rparr>)"

text \<open>
  Collaborators over the trivial ledger that always succeed: the address of a public
  key \<open>pkX\<close> is \<open>X\<close>, transactions are ordered by their timestamps, and the clock shows
  5000 ms. \<open>sc_fail\<close> differs in \<^verbatim>\<open>newApplyUnconfirmed\<close>, which throws.
\<close>

definition sc0 :: "unit scope" where
  "sc0 = \<lparr>generateAddressByPublicKey = drop 2,
     transactionSortFunc = (\<lambda>a b. timestamp a - timestamp b),
     newApplyUnconfirmed = (\<lambda>t l. (True, l)), newUndoUnconfirmed = (\<lambda>t l. (True, l)),
     newVerify = (\<lambda>t a l. (True, l)), newVerifyUnconfirmed = (\<lambda>t a l. (True, l)),
     getOrCreateAccount = (\<lambda>k l. (Some \<lparr>address = drop 2 k, publicKey = k, balance = 100,
                                          u_balance = 100\<rparr>, l)),
     getTime = (\<lambda>l. 5000), TRANSACTION_QUEUE_EXPIRE = 60\<rparr>"

definition sc_fail :: "unit scope" where
  "sc_fail = sc0\<lparr>newApplyUnconfirmed := (\<lambda>t l. (False, l))\<rparr>"

definition pool0 :: "unit TransactionPool" where
  "pool0 = \<lparr>store = store0, ledger = (), bus = [], pool = [], poolByRecipient = Map.empty,
     poolBySender = Map.empty, locked = False\<rparr>"

text \<open>The pool after transactions 0 and 2 were pushed and applied.\<close>

definition pool1 :: "unit TransactionPool" where
  "pool1 = snd (push sc0 2 False False (snd (push sc0 0 False False pool0)))"

text \<open>The pool after the push of transaction 0 failed in \<^verbatim>\<open>newApplyUnconfirmed\<close>.\<close>

definition pool_failed :: "unit TransactionPool" where
  "pool_failed = snd (push sc_fail 0 False False pool0)"

text \<open>
  A second store: object 6 is another object with the fields of transaction 0, and
  object 7 is a SEND from E to F whose id is no array index. In \<open>pool2\<close> the
  transactions 7, 2, 1 and 0 were pushed and applied in that order, so \<open>pool\<close> holds
  the ids \<open>17190511997607511181\<close>, \<open>3\<close>, \<open>2\<close> and \<open>1\<close> in that order of creation;
  transaction 1 has the timestamp 50 and the others 100.
\<close>

definition store2 :: store where
  "store2 = store0
     (6 := trs0,
      7 := trs0\<lparr>trs_id := ''17190511997607511181'', senderPublicKey := ''pkE'',
                 senderId := ''E'', recipientId := ''F''\<rparr>)"

definition pool2 :: "unit TransactionPool" where
  "pool2 =
     snd (push sc0 0 False False
       (snd (push sc0 1 False False
         (snd (push sc0 2 False False
           (snd (push sc0 7 False False (pool0\<lparr>store := store2\<rparr>))))))))"

definition queue0 :: "unit TransactionQueue" where
  "queue0 = \<lparr>transactionPool = pool1, queue = [], conflictedQueue = [], queue_locked = False,
     sent = []\<rparr>"


section \<open>Properties of the array functions\<close>

lemma indexOf_nonneg_or_minus1: "indexOf xs x = -1 \<or> 0 \<le> indexOf xs x"
  by (induction xs) (auto simp: Let_def)

lemma indexOf_minus1_iff: "(indexOf xs x = -1) = (x \<notin> set xs)"
proof (induction xs)
  case Nil
  show ?case by simp
next
  case (Cons y ys)
  have "indexOf ys x = -1 \<or> 0 \<le> indexOf ys x" by (rule indexOf_nonneg_or_minus1)
  with Cons show ?case by (auto simp: Let_def)
qed

section \<open>Properties of the Sequence\<close>

text \<open>
  C10. \<^verbatim>\<open>add\<close> leaves the sequence as it is, and so \<^verbatim>\<open>count\<close>, when the worker is
  absent (\<open>Undefined\<close>) or anything else that is not a function. Called with a worker
  that is a function and one more argument that is a function (the third argument is
  then \<open>Undefined\<close>), it takes that argument as the \<^verbatim>\<open>done\<close> callback and enqueues
  the task with no \<^verbatim>\<open>args\<close>.
\<close>

theorem add_guard_and_two_argument_call:
  "(typeof worker \<noteq> ''function'' \<longrightarrow>
      add worker args dn self = self \<and> count_tasks (add worker args dn self) = count_tasks self)
   \<and> (typeof worker = ''function'' \<and> typeof cb = ''function'' \<longrightarrow>
      sequence (add worker cb Undefined self) =
        sequence self @ [\<lparr>task_worker = worker, task_done = cb, task_args = None\<rparr>]
      \<and> count_tasks (add worker cb Undefined self) = count_tasks self + 1)"
proof -
  have fn: "\<And>v. typeof v = ''function'' \<Longrightarrow> truthy v \<and> \<not> isArray v"
    by (case_tac v) auto
  show ?thesis
    by (auto simp: add_def count_tasks_def Let_def dest: fn)
qed

theorem add_guard_and_two_argument_call_witness:
  "typeof Undefined \<noteq> ''function''
   \<and> count_tasks (add Undefined (Array []) (Function 1) \<lparr>sequence = [], newSequence = []\<rparr>) = 0
   \<and> typeof (Function 0) = ''function'' \<and> typeof (Function 1) = ''function''
   \<and> sequence (add (Function 0) (Function 1) Undefined \<lparr>sequence = [], newSequence = []\<rparr>) =
       [\<lparr>task_worker = Function 0, task_done = Function 1, task_args = None\<rparr>]"
  using add_guard_and_two_argument_call
          [of Undefined "Array []" "Function 1" "\<lparr>sequence = [], newSequence = []\<rparr>" "Function 1"]
        add_guard_and_two_argument_call
          [of "Function 0" Undefined Undefined "\<lparr>sequence = [], newSequence = []\<rparr>" "Function 1"]
  by (simp add: count_tasks_def)

section \<open>Properties of the block verifier\<close>

text \<open>
  C7. \<^verbatim>\<open>verifyReward\<close> expects \<^verbatim>\<open>calcReward(block.height)\<close>, but above height
  21000000 it expects 0 and sets \<^verbatim>\<open>block.reward\<close> to 0. It appends one error exactly
  when the height is not 1, the expected reward differs from the block's reward and
  the block's id is not in \<^verbatim>\<open>exceptions.blockRewards\<close>; otherwise the result is
  unchanged.
\<close>

theorem verifyReward_expected_and_error:
  "verifyReward lib b r =
     (let expectedReward = (if height b > 21000000 then 0 else calcReward lib (height b));
          b' = (if height b > 21000000 then b\<lparr>reward := 0\<rparr> else b)
      in (b',
          if height b \<noteq> 1 \<and> expectedReward \<noteq> reward b' \<and> block_id b \<notin> set (blockRewards lib)
          then r\<lparr>errors := errors r @ [InvalidBlockReward (reward b') expectedReward]\<rparr>
          else r))"
  by (simp add: verifyReward_def Let_def push_error_def indexOf_minus1_iff)

theorem verifyReward_expected_and_error_witness:
  "verifyReward lib0 (block0\<lparr>reward := 7\<rparr>) result0 =
     (block0\<lparr>reward := 7\<rparr>, \<lparr>verified = False, errors = [InvalidBlockReward 7 5]\<rparr>)
   \<and> verifyReward lib0 (block0\<lparr>reward := 7, block_id := ''exempt''\<rparr>) result0 =
     (block0\<lparr>reward := 7, block_id := ''exempt''\<rparr>, result0)
   \<and> verifyReward lib0 (block0\<lparr>reward := 7, height := 21000001\<rparr>) result0 =
     (block0\<lparr>reward := 0, height := 21000001\<rparr>, result0)"
  using verifyReward_expected_and_error [of lib0 "block0\<lparr>reward := 7\<rparr>" result0]
        verifyReward_expected_and_error [of lib0 "block0\<lparr>reward := 7, block_id := ''exempt''\<rparr>" result0]
        verifyReward_expected_and_error [of lib0 "block0\<lparr>reward := 7, height := 21000001\<rparr>" result0]
  by (simp add: lib0_def block0_def result0_def)

lemma scan_step:
  "scan_transactions lib (t # ts) a =
     scan_transactions lib ts
       (a\<lparr>scan_errors := scan_errors a @ tx_errors lib (appliedTransactions a) t,
          appliedTransactions := (appliedTransactions a)(trs_id t \<mapsto> t),
          hashed := hashed a @ tx_bytes lib t,
          scan_totalAmount := number_add (scan_totalAmount a) (amount t),
          scan_totalFee := number_add (scan_totalFee a) (fee t)\<rparr>)"
  by (cases "getBytes lib t") (auto simp: Let_def tx_errors_def tx_bytes_def)

lemma scan_totals:
  "scan_totalAmount (scan_transactions lib ts a) =
     foldl number_add (scan_totalAmount a) (map amount ts)
   \<and> scan_totalFee (scan_transactions lib ts a) =
     foldl number_add (scan_totalFee a) (map fee ts)
   \<and> hashed (scan_transactions lib ts a) = hashed a @ concat (map (tx_bytes lib) ts)"
  by (induction ts arbitrary: a) (simp_all del: scan_transactions.simps(2) add: scan_step)

lemma round_to_double_exact: "\<bar>x\<bar> < 2 ^ 53 \<Longrightarrow> round_to_double x = Finite x"
  by (simp add: round_to_double_def Let_def nat_less_iff)

lemma foldl_number_add_exact:
  "0 \<le> a \<Longrightarrow> \<forall>n \<in> set ns. 0 \<le> n \<Longrightarrow> a + sum_list ns < 2 ^ 53 \<Longrightarrow>
     foldl number_add (Finite a) ns = Finite (a + sum_list ns)"
proof (induction ns arbitrary: a)
  case Nil
  show ?case by simp
next
  case (Cons n ns)
  from Cons.prems have n: "0 \<le> n" and rest: "\<forall>m \<in> set ns. 0 \<le> m" by simp_all
  then have "0 \<le> sum_list ns" by (simp add: sum_list_nonneg)
  with Cons.prems n have "\<bar>a + n\<bar> < 2 ^ 53" by simp
  then have step: "number_add (Finite a) n = Finite (a + n)"
    by (simp add: round_to_double_exact)
  have "foldl number_add (Finite (a + n)) ns = Finite (a + n + sum_list ns)"
    using Cons.prems n rest by (intro Cons.IH) (simp_all add: add.assoc)
  with step show ?case by (simp add: add.assoc)
qed

lemma accumulate_exact:
  "\<forall>n \<in> set ns. 0 \<le> n \<Longrightarrow> sum_list ns < 2 ^ 53 \<Longrightarrow> accumulate ns = Finite (sum_list ns)"
  using foldl_number_add_exact[of 0 ns] by (simp add: accumulate_def)

lemma tx_errors_dup:
  "(DuplicateTransaction i \<in> set (tx_errors lib seen t)) = (i = trs_id t \<and> seen i \<noteq> None)"
  by (auto simp: tx_errors_def split: sum.splits)

lemma tx_errors_other:
  "e \<in> set (tx_errors lib seen t) \<Longrightarrow> (\<exists>x. e = Thrown x) \<or> (\<exists>i. e = DuplicateTransaction i)"
  by (auto simp: tx_errors_def split: sum.splits if_splits)

lemma scan_errors_shape:
  "\<exists>new. scan_errors (scan_transactions lib ts a) = scan_errors a @ new
     \<and> (\<forall>e \<in> set new. (\<exists>x. e = Thrown x) \<or> (\<exists>i. e = DuplicateTransaction i))
     \<and> (\<forall>i. DuplicateTransaction i \<in> set new \<longleftrightarrow>
           (i \<in> set (map trs_id ts) \<and>
            (appliedTransactions a i \<noteq> None \<or> \<not> distinct (filter (\<lambda>k. k = i) (map trs_id ts)))))"
proof (induction ts arbitrary: a)
  case Nil
  show ?case by simp
next
  case (Cons t ts)
  define a' where "a' = a\<lparr>scan_errors := scan_errors a @ tx_errors lib (appliedTransactions a) t,
          appliedTransactions := (appliedTransactions a)(trs_id t \<mapsto> t),
          hashed := hashed a @ tx_bytes lib t,
          scan_totalAmount := number_add (scan_totalAmount a) (amount t),
          scan_totalFee := number_add (scan_totalFee a) (fee t)\<rparr>"
  have step: "scan_transactions lib (t # ts) a = scan_transactions lib ts a'"
    unfolding a'_def by (rule scan_step)
  have err': "scan_errors a' = scan_errors a @ tx_errors lib (appliedTransactions a) t"
    and app': "appliedTransactions a' = (appliedTransactions a)(trs_id t \<mapsto> t)"
    by (simp_all add: a'_def)
  from Cons.IH[of a'] obtain new where
    new: "scan_errors (scan_transactions lib ts a') = scan_errors a' @ new"
    and new_only: "\<forall>e \<in> set new. (\<exists>x. e = Thrown x) \<or> (\<exists>i. e = DuplicateTransaction i)"
    and new_dup: "\<forall>i. DuplicateTransaction i \<in> set new \<longleftrightarrow>
           (i \<in> set (map trs_id ts) \<and>
            (appliedTransactions a' i \<noteq> None \<or> \<not> distinct (filter (\<lambda>k. k = i) (map trs_id ts))))"
    by blast
  let ?all = "tx_errors lib (appliedTransactions a) t @ new"
  have 1: "scan_errors (scan_transactions lib (t # ts) a) = scan_errors a @ ?all"
    using step new err' by simp
  have 2: "\<forall>e \<in> set ?all. (\<exists>x. e = Thrown x) \<or> (\<exists>i. e = DuplicateTransaction i)"
  proof
    fix e assume "e \<in> set ?all"
    then have "e \<in> set (tx_errors lib (appliedTransactions a) t) \<or> e \<in> set new" by simp
    then show "(\<exists>x. e = Thrown x) \<or> (\<exists>i. e = DuplicateTransaction i)"
      using new_only tx_errors_other by blast
  qed
  have 3: "\<forall>i. DuplicateTransaction i \<in> set ?all \<longleftrightarrow>
           (i \<in> set (map trs_id (t # ts)) \<and>
            (appliedTransactions a i \<noteq> None \<or> \<not> distinct (filter (\<lambda>k. k = i) (map trs_id (t # ts)))))"
  proof
    fix i :: string
    have f: "\<And>xs. (i \<in> set (filter (\<lambda>k. k = i) xs)) = (i \<in> set xs)" by auto
    have g: "i \<notin> set (map trs_id ts) \<Longrightarrow> filter (\<lambda>k. k = i) (map trs_id ts) = []"
      by (auto simp: filter_empty_conv)
    show "DuplicateTransaction i \<in> set ?all \<longleftrightarrow>
           (i \<in> set (map trs_id (t # ts)) \<and>
            (appliedTransactions a i \<noteq> None \<or> \<not> distinct (filter (\<lambda>k. k = i) (map trs_id (t # ts)))))"
      using new_dup[rule_format, of i] g
      by (cases "i = trs_id t") (auto simp: f app' tx_errors_dup)
  qed
  from 1 2 3 show ?case by blast
qed


lemma not_distinct_filter_count:
  "(\<not> distinct (filter (\<lambda>k. k = i) xs)) = (1 < count_list xs i)"
proof (induction xs)
  case Nil
  show ?case by simp
next
  case (Cons x xs)
  have "(i \<in> set xs) = (0 < count_list xs i)"
    by (simp add: count_list_0_iff zero_less_iff_neq_zero)
  with Cons show ?case by auto
qed

text \<open>
  C8. Of the errors \<^verbatim>\<open>verifyPayload\<close> appends, the one for a transaction count that
  differs from \<^verbatim>\<open>numberOfTransactions\<close>, the one for a rolling hash that differs
  from \<^verbatim>\<open>payloadHash\<close>, and the ones for accumulated amounts and fees that differ
  from \<^verbatim>\<open>totalAmount\<close> and \<^verbatim>\<open>totalFee\<close> are there exactly when the mismatch is
  there and the height is above \<^verbatim>\<open>MASTER_NODE_MIGRATED_BLOCK\<close>. The error for a
  duplicate transaction is there, at every height, exactly for the ids that occur
  more than once in the block. The accumulated amounts and fees are the sums the loop
  computes, in doubles from left to right; they are the exact sums where the amounts
  (the fees) are not negative and their sum is below \<open>2^53\<close>.
\<close>

theorem verifyPayload_mismatches:
  "\<exists>new. errors (verifyPayload lib b r) = errors r @ new
     \<and> (TransactionsCountMismatch \<in> set new \<longleftrightarrow>
          int (length (transactions b)) \<noteq> numberOfTransactions b
          \<and> height b > MASTER_NODE_MIGRATED_BLOCK lib)
     \<and> (InvalidPayloadHash \<in> set new \<longleftrightarrow>
          sha256_hex lib (concat (map (tx_bytes lib) (transactions b))) \<noteq> payloadHash b
          \<and> height b > MASTER_NODE_MIGRATED_BLOCK lib)
     \<and> (InvalidTotalAmount \<in> set new \<longleftrightarrow>
          accumulate (map amount (transactions b)) \<noteq> Finite (totalAmount b)
          \<and> height b > MASTER_NODE_MIGRATED_BLOCK lib)
     \<and> (InvalidTotalFee \<in> set new \<longleftrightarrow>
          accumulate (map fee (transactions b)) \<noteq> Finite (totalFee b)
          \<and> height b > MASTER_NODE_MIGRATED_BLOCK lib)
     \<and> (\<forall>i. DuplicateTransaction i \<in> set new \<longleftrightarrow>
          1 < count_list (map trs_id (transactions b)) i)
     \<and> ((\<forall>t \<in> set (transactions b). 0 \<le> amount t)
          \<and> sum_list (map amount (transactions b)) < 2 ^ 53
        \<longrightarrow> (InvalidTotalAmount \<in> set new \<longleftrightarrow>
               sum_list (map amount (transactions b)) \<noteq> totalAmount b
               \<and> height b > MASTER_NODE_MIGRATED_BLOCK lib))
     \<and> ((\<forall>t \<in> set (transactions b). 0 \<le> fee t)
          \<and> sum_list (map fee (transactions b)) < 2 ^ 53
        \<longrightarrow> (InvalidTotalFee \<in> set new \<longleftrightarrow>
               sum_list (map fee (transactions b)) \<noteq> totalFee b
               \<and> height b > MASTER_NODE_MIGRATED_BLOCK lib))"
proof -
  define pre where "pre =
     (if payloadLength b > maxPayloadLength lib then [PayloadTooLong] else []) @
     (if int (length (transactions b)) \<noteq> numberOfTransactions b
         \<and> height b > MASTER_NODE_MIGRATED_BLOCK lib then [TransactionsCountMismatch] else []) @
     (if int (length (transactions b)) > maxTxsPerBlock lib then [TooManyTransactions] else [])"
  define a0 where "a0 = \<lparr>scan_errors = errors r @ pre, appliedTransactions = Map.empty,
     hashed = [], scan_totalAmount = Finite 0, scan_totalFee = Finite 0\<rparr>"
  define a where "a = scan_transactions lib (transactions b) a0"
  define post where "post =
     (if sha256_hex lib (hashed a) \<noteq> payloadHash b \<and> height b > MASTER_NODE_MIGRATED_BLOCK lib
      then [InvalidPayloadHash] else []) @
     (if scan_totalAmount a \<noteq> Finite (totalAmount b) \<and> height b > MASTER_NODE_MIGRATED_BLOCK lib
      then [InvalidTotalAmount] else []) @
     (if scan_totalFee a \<noteq> Finite (totalFee b) \<and> height b > MASTER_NODE_MIGRATED_BLOCK lib
      then [InvalidTotalFee] else [])"
  have unfold: "errors (verifyPayload lib b r) = scan_errors a @ post"
    by (simp add: verifyPayload_def Let_def push_error_def a_def a0_def pre_def post_def)
  obtain mid where mid: "scan_errors a = scan_errors a0 @ mid"
    and mid_only: "\<forall>e \<in> set mid. (\<exists>x. e = Thrown x) \<or> (\<exists>i. e = DuplicateTransaction i)"
    and mid_dup: "\<forall>i. DuplicateTransaction i \<in> set mid \<longleftrightarrow>
           (i \<in> set (map trs_id (transactions b)) \<and>
            (appliedTransactions a0 i \<noteq> None
             \<or> \<not> distinct (filter (\<lambda>k. k = i) (map trs_id (transactions b)))))"
    unfolding a_def using scan_errors_shape[of lib "transactions b" a0] by blast
  have totals: "scan_totalAmount a = accumulate (map amount (transactions b))"
    "scan_totalFee a = accumulate (map fee (transactions b))"
    "hashed a = concat (map (tx_bytes lib) (transactions b))"
    using scan_totals[of lib "transactions b" a0] by (simp_all add: a_def a0_def accumulate_def)
  have all: "errors (verifyPayload lib b r) = errors r @ (pre @ mid @ post)"
    using unfold mid by (simp add: a0_def)
  have no_mid: "TransactionsCountMismatch \<notin> set mid" "InvalidPayloadHash \<notin> set mid"
    "InvalidTotalAmount \<notin> set mid" "InvalidTotalFee \<notin> set mid"
    using mid_only by auto
  have dup: "\<forall>i. DuplicateTransaction i \<in> set (pre @ mid @ post) \<longleftrightarrow>
          1 < count_list (map trs_id (transactions b)) i"
  proof
    fix i :: string
    have "DuplicateTransaction i \<in> set (pre @ mid @ post) \<longleftrightarrow> DuplicateTransaction i \<in> set mid"
      by (auto simp: pre_def post_def)
    also have "\<dots> \<longleftrightarrow> (i \<in> set (map trs_id (transactions b)) \<and>
            \<not> distinct (filter (\<lambda>k. k = i) (map trs_id (transactions b))))"
      using mid_dup by (simp add: a0_def)
    also have "\<dots> \<longleftrightarrow> 1 < count_list (map trs_id (transactions b)) i"
      unfolding not_distinct_filter_count
      by (metis count_list_0_iff not_less_zero)
    finally show "DuplicateTransaction i \<in> set (pre @ mid @ post) \<longleftrightarrow>
          1 < count_list (map trs_id (transactions b)) i" .
  qed
  have c1: "TransactionsCountMismatch \<in> set (pre @ mid @ post) \<longleftrightarrow>
          int (length (transactions b)) \<noteq> numberOfTransactions b
          \<and> height b > MASTER_NODE_MIGRATED_BLOCK lib"
    using no_mid by (auto simp: pre_def post_def)
  have c2: "InvalidPayloadHash \<in> set (pre @ mid @ post) \<longleftrightarrow>
          sha256_hex lib (concat (map (tx_bytes lib) (transactions b))) \<noteq> payloadHash b
          \<and> height b > MASTER_NODE_MIGRATED_BLOCK lib"
    using no_mid by (auto simp: pre_def post_def totals)
  have c3: "InvalidTotalAmount \<in> set (pre @ mid @ post) \<longleftrightarrow>
          accumulate (map amount (transactions b)) \<noteq> Finite (totalAmount b)
          \<and> height b > MASTER_NODE_MIGRATED_BLOCK lib"
    using no_mid by (auto simp: pre_def post_def totals)
  have c4: "InvalidTotalFee \<in> set (pre @ mid @ post) \<longleftrightarrow>
          accumulate (map fee (transactions b)) \<noteq> Finite (totalFee b)
          \<and> height b > MASTER_NODE_MIGRATED_BLOCK lib"
    using no_mid by (auto simp: pre_def post_def totals)
  have c5: "InvalidTotalAmount \<in> set (pre @ mid @ post) \<longleftrightarrow>
               sum_list (map amount (transactions b)) \<noteq> totalAmount b
               \<and> height b > MASTER_NODE_MIGRATED_BLOCK lib"
    if "(\<forall>t \<in> set (transactions b). 0 \<le> amount t)
          \<and> sum_list (map amount (transactions b)) < 2 ^ 53"
  proof -
    from that have "accumulate (map amount (transactions b)) =
        Finite (sum_list (map amount (transactions b)))"
      by (intro accumulate_exact) simp_all
    with c3 show ?thesis by simp
  qed
  have c6: "InvalidTotalFee \<in> set (pre @ mid @ post) \<longleftrightarrow>
               sum_list (map fee (transactions b)) \<noteq> totalFee b
               \<and> height b > MASTER_NODE_MIGRATED_BLOCK lib"
    if "(\<forall>t \<in> set (transactions b). 0 \<le> fee t)
          \<and> sum_list (map fee (transactions b)) < 2 ^ 53"
  proof -
    from that have "accumulate (map fee (transactions b)) =
        Finite (sum_list (map fee (transactions b)))"
      by (intro accumulate_exact) simp_all
    with c4 show ?thesis by simp
  qed
  from all c1 c2 c3 c4 dup c5 c6 show ?thesis by blast
qed

lemma bit_length_2_53: "bit_length 9007199254740992 = 54" "bit_length 9007199254740993 = 54"
  by (simp_all add: bit_length.simps)

lemma round_to_double_2_53:
  "round_to_double 9007199254740992 = Finite 9007199254740992"
  "round_to_double 9007199254740993 = Finite 9007199254740992"
  by (simp_all add: round_to_double_def Let_def bit_length_2_53)

lemmas verifyPayload_eval = verifyPayload_def lib0_def block0_def result0_def trs0_def
  push_error_def Let_def round_to_double_exact round_to_double_2_53 scan_step tx_errors_def
  tx_bytes_def

theorem verifyPayload_mismatches_witness:
  "errors (verifyPayload lib0 block1 result0) = [DuplicateTransaction ''1'']
   \<and> errors (verifyPayload lib0 block2 result0) =
       [TransactionsCountMismatch, DuplicateTransaction ''1'', InvalidTotalAmount, InvalidTotalFee]
   \<and> list_all (\<lambda>t. 0 \<le> amount t) (transactions block2)
   \<and> sum_list (map amount (transactions block2)) = 20
   \<and> list_all (\<lambda>t. 0 \<le> fee t) (transactions block2)
   \<and> sum_list (map fee (transactions block2)) = 2
   \<and> sum_list (map amount (transactions block3)) = totalAmount block3
   \<and> accumulate (map amount (transactions block3)) = Finite 9007199254740992
   \<and> errors (verifyPayload lib0 block3 result0) = [InvalidTotalAmount]
   \<and> sum_list (map amount (transactions block4)) = totalAmount block4 + 1
   \<and> accumulate (map amount (transactions block4)) = Finite 9007199254740992
   \<and> errors (verifyPayload lib0 block4 result0) = []"
proof -
  have e1: "errors (verifyPayload lib0 block1 result0) = [DuplicateTransaction ''1'']"
    by (simp add: block1_def verifyPayload_eval del: scan_transactions.simps(2))
  have e2: "errors (verifyPayload lib0 block2 result0) =
       [TransactionsCountMismatch, DuplicateTransaction ''1'', InvalidTotalAmount, InvalidTotalFee]"
    by (simp add: block2_def block1_def verifyPayload_eval del: scan_transactions.simps(2))
  have e3: "errors (verifyPayload lib0 block3 result0) = [InvalidTotalAmount]"
    by (simp add: block3_def verifyPayload_eval del: scan_transactions.simps(2))
  have e4: "errors (verifyPayload lib0 block4 result0) = []"
    by (simp add: block4_def verifyPayload_eval del: scan_transactions.simps(2))
  have a2: "list_all (\<lambda>t. 0 \<le> amount t) (transactions block2)"
    "sum_list (map amount (transactions block2)) = 20"
    "list_all (\<lambda>t. 0 \<le> fee t) (transactions block2)"
    "sum_list (map fee (transactions block2)) = 2"
    by (simp_all add: block2_def block1_def block0_def trs0_def)
  have a3: "sum_list (map amount (transactions block3)) = totalAmount block3"
    "accumulate (map amount (transactions block3)) = Finite 9007199254740992"
    by (simp_all add: block3_def block0_def trs0_def accumulate_def round_to_double_exact
          round_to_double_2_53)
  have a4: "sum_list (map amount (transactions block4)) = totalAmount block4 + 1"
    "accumulate (map amount (transactions block4)) = Finite 9007199254740992"
    by (simp_all add: block4_def block0_def trs0_def accumulate_def round_to_double_exact
          round_to_double_2_53)
  from verifyPayload_mismatches [of lib0 block2 result0]
       verifyPayload_mismatches [of lib0 block3 result0]
       verifyPayload_mismatches [of lib0 block4 result0]
  show ?thesis using e1 e2 e3 e4 a2 a3 a4 by simp
qed

text \<open>
  C4, as the code has it. \<^verbatim>\<open>verifyId\<close> computes the id with the block logic and
  stores it in \<^verbatim>\<open>block.id\<close>, in place of the id the block declared; it compares
  nothing. It appends an error exactly when the computation throws. So the id a block
  declares has no part in the verdict of \<^verbatim>\<open>verifyBlock\<close>: where the signature check
  and the id computation do not read it, two blocks that differ in the declared id
  only get the same answer.
\<close>

theorem verifyId_assigns_recomputed_id:
  "(getId lib b = Inr i \<longrightarrow> verifyId lib b r = (b\<lparr>block_id := i\<rparr>, r))
   \<and> (getId lib b = Inl e \<longrightarrow> verifyId lib b r = (b, r\<lparr>errors := errors r @ [Thrown e]\<rparr>))
   \<and> (getId lib (setHeight (b\<lparr>block_id := declared\<rparr>) lastBlock) = Inr i
        \<and> getId lib (setHeight b lastBlock) = Inr i
        \<and> verifySignature lib (setHeight (b\<lparr>block_id := declared\<rparr>) lastBlock) =
            verifySignature lib (setHeight b lastBlock)
      \<longrightarrow> verifyBlock lib lastBlock (b\<lparr>block_id := declared\<rparr>) = verifyBlock lib lastBlock b)"
proof -
  have step: "getId lib b = Inr i \<longrightarrow> verifyId lib b r = (b\<lparr>block_id := i\<rparr>, r)"
    and thrown: "getId lib b = Inl e \<longrightarrow> verifyId lib b r = (b, r\<lparr>errors := errors r @ [Thrown e]\<rparr>)"
    by (simp_all add: verifyId_def push_error_def)
  have same: "verifyBlock lib lastBlock (b\<lparr>block_id := declared\<rparr>) = verifyBlock lib lastBlock b"
    if a: "getId lib (setHeight (b\<lparr>block_id := declared\<rparr>) lastBlock) = Inr i"
      and b: "getId lib (setHeight b lastBlock) = Inr i"
      and c: "verifySignature lib (setHeight (b\<lparr>block_id := declared\<rparr>) lastBlock) =
            verifySignature lib (setHeight b lastBlock)"
  proof -
    have sig: "verifySignature_step lib (setHeight (b\<lparr>block_id := declared\<rparr>) lastBlock) r0 =
               verifySignature_step lib (setHeight b lastBlock) r0" for r0
      using c by (simp add: verifySignature_step_def setHeight_def split: sum.splits)
    have prev: "verifyPreviousBlock (setHeight (b\<lparr>block_id := declared\<rparr>) lastBlock) r0 =
               verifyPreviousBlock (setHeight b lastBlock) r0" for r0
      by (simp add: verifyPreviousBlock_def setHeight_def)
    have ver: "verifyVersion lib (setHeight (b\<lparr>block_id := declared\<rparr>) lastBlock) r0 =
               verifyVersion lib (setHeight b lastBlock) r0" for r0
      by (simp add: verifyVersion_def setHeight_def)
    have vid: "verifyId lib (setHeight (b\<lparr>block_id := declared\<rparr>) lastBlock) r0 =
               verifyId lib (setHeight b lastBlock) r0" for r0
      using a b by (simp add: verifyId_def setHeight_def)
    show ?thesis
      by (simp add: verifyBlock_def Let_def sig prev ver vid)
  qed
  from step thrown same show ?thesis by blast
qed

theorem verifyId_assigns_recomputed_id_witness:
  "getId lib0 block0 = Inr ''recomputed''
   \<and> verifyId lib0 block0 result0 = (block0\<lparr>block_id := ''recomputed''\<rparr>, result0)
   \<and> verifyId (lib0\<lparr>getId := (\<lambda>b. Inl ''failed'')\<rparr>) block0 result0 =
       (block0, \<lparr>verified = False, errors = [Thrown ''failed'']\<rparr>)
   \<and> verifyBlock lib0 lastBlock0 (block0\<lparr>block_id := ''other''\<rparr>) = verifyBlock lib0 lastBlock0 block0"
  using verifyId_assigns_recomputed_id
          [of lib0 block0 "''recomputed''" result0 "''failed''" "''other''" lastBlock0]
        verifyId_assigns_recomputed_id
          [of "lib0\<lparr>getId := (\<lambda>b. Inl ''failed'')\<rparr>" block0 "''recomputed''" result0 "''failed''"
              "''other''" lastBlock0]
  by (simp add: lib0_def result0_def)

theorem verifyId_mismatch_counterexample:
  "block_id block0 = ''declared''
   \<and> getId lib0 block0 = Inr ''recomputed''
   \<and> verifyId lib0 block0 result0 = (block0\<lparr>block_id := ''recomputed''\<rparr>, result0)
   \<and> errors result0 = []
   \<and> verifyBlock lib0 lastBlock0 block0 =
       (block0\<lparr>block_id := ''recomputed''\<rparr>, \<lparr>verified = True, errors = []\<rparr>, 0)
   \<and> verifyReceipt lib0 [] lastBlock0 block0 =
       (block0\<lparr>block_id := ''recomputed''\<rparr>, \<lparr>verified = True, errors = []\<rparr>)"
  by (simp add: verifyBlock_def verifyReceipt_def verifyId_def verifySignature_step_def
        verifyPreviousBlock_def verifyVersion_def verifyPayload_def verifyForkOne_def
        verifyBlockSlot_def verifyBlockSlotWindow_def verifyAgainstLastNBlockIds_def
        setHeight_def finish_def falsy_id_def push_error_def Let_def
        lib0_def block0_def lastBlock0_def result0_def)

section \<open>Properties of the pool\<close>

lemma bucket_upd: "bucket (m(k \<mapsto> b)) k' = (if k' = k then b else bucket m k')"
  by (simp add: bucket_def)

lemma bucket_Some: "m k = Some b \<Longrightarrow> bucket m k = b"
  by (simp add: bucket_def)

lemma bucket_None: "m k = None \<Longrightarrow> bucket m k = []"
  by (simp add: bucket_def)

lemma remove_trs_not_stored:
  "map_of (pool p) (trs_id (store p trs)) = None \<Longrightarrow> remove_trs sc trs p = (Inr False, p)"
  by (simp add: remove_trs_def)

lemma remove_trs_no_bucket:
  "map_of (pool p) (trs_id (store p trs)) = Some r \<Longrightarrow>
   poolBySender p (senderId (store p trs)) = None \<Longrightarrow>
   remove_trs sc trs p =
     (Inl TypeError,
      p\<lparr>ledger := snd (newUndoUnconfirmed sc (store p trs) (ledger p)),
        pool := AList.delete (trs_id (store p trs)) (pool p)\<rparr>)"
  by (simp add: remove_trs_def Let_def)

lemma remove_trs_stored:
  "map_of (pool p) (trs_id (store p trs)) = Some r \<Longrightarrow>
   poolBySender p (senderId (store p trs)) = Some b \<Longrightarrow>
   remove_trs sc trs p =
     (Inr True,
      p\<lparr>ledger := snd (newUndoUnconfirmed sc (store p trs) (ledger p)),
        pool := AList.delete (trs_id (store p trs)) (pool p),
        poolBySender := (poolBySender p)(senderId (store p trs) \<mapsto>
           filter (\<lambda>r. trs_id (store p r) \<noteq> trs_id (store p trs)) b),
        poolByRecipient := (poolByRecipient p)(recipientId (store p trs) \<mapsto>
           filter (\<lambda>r. trs_id (store p r) \<noteq> trs_id (store p trs))
             (bucket (poolByRecipient p) (recipientId (store p trs))))\<rparr>)"
  by (simp add: remove_trs_def Let_def)

lemma remove_trs_cases:
  obtains (absent) "map_of (pool p) (trs_id (store p trs)) = None"
      "remove_trs sc trs p = (Inr False, p)"
  | (thrown) r where "map_of (pool p) (trs_id (store p trs)) = Some r"
      "poolBySender p (senderId (store p trs)) = None"
      "remove_trs sc trs p =
     (Inl TypeError,
      p\<lparr>ledger := snd (newUndoUnconfirmed sc (store p trs) (ledger p)),
        pool := AList.delete (trs_id (store p trs)) (pool p)\<rparr>)"
  | (removed) r b where "map_of (pool p) (trs_id (store p trs)) = Some r"
      "poolBySender p (senderId (store p trs)) = Some b"
      "remove_trs sc trs p =
     (Inr True,
      p\<lparr>ledger := snd (newUndoUnconfirmed sc (store p trs) (ledger p)),
        pool := AList.delete (trs_id (store p trs)) (pool p),
        poolBySender := (poolBySender p)(senderId (store p trs) \<mapsto>
           filter (\<lambda>r. trs_id (store p r) \<noteq> trs_id (store p trs)) b),
        poolByRecipient := (poolByRecipient p)(recipientId (store p trs) \<mapsto>
           filter (\<lambda>r. trs_id (store p r) \<noteq> trs_id (store p trs))
             (bucket (poolByRecipient p) (recipientId (store p trs))))\<rparr>)"
proof (cases "map_of (pool p) (trs_id (store p trs))")
  case None
  then show ?thesis using absent remove_trs_not_stored by blast
next
  case (Some r)
  show ?thesis
  proof (cases "poolBySender p (senderId (store p trs))")
    case None
    with Some show ?thesis using thrown remove_trs_no_bucket by blast
  next
    case (Some b)
    with \<open>map_of (pool p) (trs_id (store p trs)) = Some r\<close> show ?thesis
      using removed remove_trs_stored by blast
  qed
qed

lemma remove_trs_store [simp]: "store (snd (remove_trs sc trs p)) = store p"
  by (cases rule: remove_trs_cases[of p trs sc]) simp_all

lemma remove_trs_pool:
  "pool (snd (remove_trs sc trs p)) = AList.delete (trs_id (store p trs)) (pool p)"
proof (cases rule: remove_trs_cases[of p trs sc])
  case absent
  then have "trs_id (store p trs) \<notin> fst ` set (pool p)"
    by (simp add: map_of_eq_None_iff)
  then have "AList.delete (trs_id (store p trs)) (pool p) = pool p"
    by (simp add: AList.delete_id)
  with absent show ?thesis by simp
qed simp_all

lemma remove_trs_sender_defined:
  "poolBySender p s \<noteq> None \<Longrightarrow> poolBySender (snd (remove_trs sc trs p)) s \<noteq> None"
  by (cases rule: remove_trs_cases[of p trs sc]) simp_all

lemma remove_trs_bySender_subset:
  "set (bucket (poolBySender (snd (remove_trs sc trs p))) s) \<subseteq> set (bucket (poolBySender p) s)"
  by (cases rule: remove_trs_cases[of p trs sc]) (auto simp: bucket_upd bucket_Some)

lemma remove_trs_byRecipient_subset:
  "set (bucket (poolByRecipient (snd (remove_trs sc trs p))) k) \<subseteq> set (bucket (poolByRecipient p) k)"
  by (cases rule: remove_trs_cases[of p trs sc]) (auto simp: bucket_upd bucket_Some)

lemma map_of_delete_self [simp]: "map_of (AList.delete k al) k = None"
  by (simp add: AList.delete_eq map_of_eq_None_iff image_iff)

lemma map_of_delete_other: "k' \<noteq> k \<Longrightarrow> map_of (AList.delete k al) k' = map_of al k'"
  by (induction al) (auto simp: AList.delete_eq)

lemma map_of_delete_Some: "map_of (AList.delete k al) k' = Some v \<Longrightarrow> map_of al k' = Some v \<and> k' \<noteq> k"
  by (cases "k' = k") (simp_all add: map_of_delete_other)

lemma pool_wf_remove_trs: "pool_wf p \<Longrightarrow> pool_wf (snd (remove_trs sc trs p))"
proof -
  assume wf: "pool_wf p"
  let ?p' = "snd (remove_trs sc trs p)"
  have d: "distinct (map fst (pool ?p'))"
    using wf by (simp add: pool_wf_def remove_trs_pool AList.distinct_delete)
  have "\<forall>(k, t) \<in> set (pool ?p'). trs_id (store ?p' t) = k \<and> poolBySender ?p' (senderId (store ?p' t)) \<noteq> None"
  proof (clarify, rule conjI)
    fix k t assume "(k, t) \<in> set (pool ?p')"
    then have in_p: "(k, t) \<in> set (pool p)"
      by (auto simp: remove_trs_pool AList.delete_eq)
    with wf show "trs_id (store ?p' t) = k" by (auto simp: pool_wf_def)
    from in_p wf have "poolBySender p (senderId (store p t)) \<noteq> None" by (auto simp: pool_wf_def)
    then show "poolBySender ?p' (senderId (store ?p' t)) \<noteq> None"
      by (simp add: remove_trs_sender_defined)
  qed
  with d show ?thesis by (simp add: pool_wf_def)
qed

lemma mset_insert_sorted: "mset (insert_sorted cmp x xs) = add_mset x (mset xs)"
  by (induction xs) auto

lemma mset_array_sort: "mset (array_sort cmp xs) = mset xs"
  by (induction xs) (simp_all add: array_sort_def mset_insert_sorted)

lemma set_array_sort: "set (array_sort cmp xs) = set xs"
  using mset_array_sort[of cmp xs] by (metis set_mset_mset)

lemma length_array_sort: "length (array_sort cmp xs) = length xs"
  using mset_array_sort[of cmp xs] by (metis size_mset)

lemma set_insert_sorted: "set (insert_sorted cmp x xs) = insert x (set xs)"
  by (induction xs) auto

lemma sorted_insert_sorted:
  assumes "consistent_comparator cmp"
  shows "sorted_wrt (\<lambda>a b. cmp a b \<le> 0) xs \<Longrightarrow>
         sorted_wrt (\<lambda>a b. cmp a b \<le> 0) (insert_sorted cmp x xs)"
proof (induction xs)
  case Nil
  show ?case by simp
next
  case (Cons y ys)
  from assms have total: "\<And>a b. cmp a b \<le> 0 \<or> cmp b a \<le> 0"
    and trans: "\<And>a b c. cmp a b \<le> 0 \<Longrightarrow> cmp b c \<le> 0 \<Longrightarrow> cmp a c \<le> 0"
    unfolding consistent_comparator_def by blast+
  show ?case
  proof (cases "cmp x y \<le> 0")
    case True
    with Cons.prems trans show ?thesis by auto
  next
    case False
    with total[of x y] have "cmp y x \<le> 0" by simp
    with False Cons show ?thesis by (auto simp: set_insert_sorted)
  qed
qed

lemma sorted_array_sort:
  "consistent_comparator cmp \<Longrightarrow> sorted_wrt (\<lambda>a b. cmp a b \<le> 0) (array_sort cmp xs)"
  unfolding array_sort_def by (induction xs) (simp_all add: sorted_insert_sorted)

lemma consistent_comparator_store:
  "consistent_comparator cmp \<Longrightarrow> consistent_comparator (\<lambda>a b. cmp (f a) (f b))"
  unfolding consistent_comparator_def by blast

lemma filter_mset_None_partition:
  "filter_mset (\<lambda>x. f x \<noteq> None) M + filter_mset (\<lambda>x. f x = None) M = M"
  by (induction M) simp_all

lemma mset_object_values: "mset (object_values al) = mset (map snd al)"
proof -
  have "mset (object_values al) =
      image_mset snd (filter_mset (\<lambda>kv. array_index (fst kv) \<noteq> None) (mset al)
                      + filter_mset (\<lambda>kv. array_index (fst kv) = None) (mset al))"
    unfolding object_values_def
    by (simp only: mset_append mset_map mset_sort mset_filter image_mset_union)
  then show ?thesis by (simp only: filter_mset_None_partition mset_map)
qed

lemma set_object_values: "set (object_values al) = set (map snd al)"
  using mset_object_values[of al] by (metis set_mset_mset)

lemma set_slice0: "set (slice0 e xs) \<subseteq> set xs"
  by (auto simp: slice0_def dest: in_set_takeD)

lemma map_of_delete_None: "map_of al k' = None \<Longrightarrow> map_of (AList.delete k al) k' = None"
  by (cases "k' = k") (simp_all add: map_of_delete_other)

lemma absent_remove_trs: "absent p t \<Longrightarrow> absent (snd (remove_trs sc x p)) t"
  unfolding absent_def
  using remove_trs_bySender_subset[of sc x p "senderId (store p t)"]
    remove_trs_byRecipient_subset[of sc x p "recipientId (store p t)"]
  by (simp add: remove_trs_pool map_of_delete_None) blast

lemma absent_remove_in_order: "absent p t \<Longrightarrow> absent (remove_in_order sc ts p) t"
  by (induction ts arbitrary: p) (simp_all add: remove_in_order_def absent_remove_trs)

lemma remove_trs_makes_absent:
  assumes "map_of (pool p) (trs_id (store p t)) = Some r"
    and "poolBySender p (senderId (store p t)) \<noteq> None"
  shows "fst (remove_trs sc t p) = Inr True \<and> absent (snd (remove_trs sc t p)) t"
proof -
  from assms obtain b where b: "poolBySender p (senderId (store p t)) = Some b" by auto
  show ?thesis
    by (simp add: remove_trs_stored[OF assms(1) b] absent_def bucket_upd)
qed

lemma pool_wf_stored:
  "pool_wf p \<Longrightarrow> map_of (pool p) k = Some t \<Longrightarrow>
     trs_id (store p t) = k \<and> poolBySender p (senderId (store p t)) \<noteq> None"
  by (auto simp: pool_wf_def dest!: map_of_SomeD)

lemma pool_wf_value:
  "pool_wf p \<Longrightarrow> t \<in> set (map snd (pool p)) \<Longrightarrow> map_of (pool p) (trs_id (store p t)) = Some t"
proof -
  assume wf: "pool_wf p" and "t \<in> set (map snd (pool p))"
  then obtain k where k: "(k, t) \<in> set (pool p)" by auto
  with wf have "map_of (pool p) k = Some t" by (simp add: pool_wf_def)
  moreover from wf k have "trs_id (store p t) = k" by (auto simp: pool_wf_def)
  ultimately show ?thesis by simp
qed

lemma stored_or_absent_remove_trs:
  assumes wf: "pool_wf p"
    and x: "map_of (pool p) (trs_id (store p x)) = Some x \<or> absent p x"
    and t: "map_of (pool p) (trs_id (store p t)) = Some t \<or> absent p t"
  shows "map_of (pool (snd (remove_trs sc x p))) (trs_id (store p t)) = Some t
         \<or> absent (snd (remove_trs sc x p)) t"
proof (cases "absent p t")
  case True
  then show ?thesis by (simp add: absent_remove_trs)
next
  case False
  with t have st: "map_of (pool p) (trs_id (store p t)) = Some t" by simp
  show ?thesis
  proof (cases "trs_id (store p x) = trs_id (store p t)")
    case False
    then show ?thesis using st by (simp add: remove_trs_pool map_of_delete_other)
  next
    case True
    with st have "map_of (pool p) (trs_id (store p x)) = Some t" by simp
    moreover from this x have "x = t" by (auto simp: absent_def)
    ultimately show ?thesis
      using remove_trs_makes_absent[of p t t sc] pool_wf_stored[OF wf st] st by simp
  qed
qed

lemma remove_trs_returns:
  assumes wf: "pool_wf p"
    and x: "map_of (pool p) (trs_id (store p x)) = Some x \<or> absent p x"
  shows "\<exists>removed. fst (remove_trs sc x p) = Inr removed" "absent (snd (remove_trs sc x p)) x"
proof -
  show "\<exists>removed. fst (remove_trs sc x p) = Inr removed"
  proof (cases "map_of (pool p) (trs_id (store p x))")
    case None
    then show ?thesis by (auto simp: remove_trs_not_stored)
  next
    case (Some r)
    with x have "r = x" by (auto simp: absent_def)
    with Some wf show ?thesis
      using remove_trs_makes_absent[of p x x sc] pool_wf_stored[of p "trs_id (store p x)" x] by auto
  qed
  show "absent (snd (remove_trs sc x p)) x"
  proof (cases "absent p x")
    case True
    then show ?thesis by (simp add: absent_remove_trs)
  next
    case False
    with x have st: "map_of (pool p) (trs_id (store p x)) = Some x" by simp
    then show ?thesis
      using remove_trs_makes_absent[of p x x sc] pool_wf_stored[OF wf st] by simp
  qed
qed

lemma remove_each_in_order:
  assumes "pool_wf p"
    and "\<forall>t \<in> set ts. map_of (pool p) (trs_id (store p t)) = Some t \<or> absent p t"
  shows "remove_each sc ts p = (Inr (), remove_in_order sc ts p)
         \<and> (\<forall>t \<in> set ts. absent (remove_in_order sc ts p) t)"
  using assms
proof (induction ts arbitrary: p)
  case Nil
  show ?case by (simp add: remove_in_order_def)
next
  case (Cons x ts)
  let ?p' = "snd (remove_trs sc x p)"
  from Cons.prems have x: "map_of (pool p) (trs_id (store p x)) = Some x \<or> absent p x" by simp
  from remove_trs_returns[OF Cons.prems(1) x, of sc]
  obtain removed where r: "fst (remove_trs sc x p) = Inr removed"
    and ax: "absent ?p' x" by blast
  have wf': "pool_wf ?p'" using Cons.prems(1) by (rule pool_wf_remove_trs)
  have rest: "\<forall>t \<in> set ts. map_of (pool ?p') (trs_id (store ?p' t)) = Some t \<or> absent ?p' t"
    using stored_or_absent_remove_trs[OF Cons.prems(1) x] Cons.prems(2) by simp
  from Cons.IH[OF wf' rest]
  have ih: "remove_each sc ts ?p' = (Inr (), remove_in_order sc ts ?p')"
    and abs: "\<forall>t \<in> set ts. absent (remove_in_order sc ts ?p') t" by simp_all
  have step: "remove_in_order sc (x # ts) p = remove_in_order sc ts ?p'"
    by (simp add: remove_in_order_def)
  have "remove_each sc (x # ts) p = remove_each sc ts ?p'"
    using r by (cases "remove_trs sc x p") simp
  with ih step have 1: "remove_each sc (x # ts) p = (Inr (), remove_in_order sc (x # ts) p)" by simp
  have 2: "absent (remove_in_order sc (x # ts) p) x"
    unfolding step using ax by (rule absent_remove_in_order)
  from 1 2 abs step show ?case by simp
qed

text \<open>
  C5. In a well-formed pool and for a limit that is not negative,
  \<^verbatim>\<open>popSortedUnconfirmedTransactions\<close> returns the first \<open>limit\<close> elements of
  \<^verbatim>\<open>Object.values(pool).sort(transactionSortFunc)\<close>, its final state is the one
  reached by calling \<^verbatim>\<open>remove\<close> on each of them in that order, and each of them is
  then in none of the three indexes. The list the elements are taken from holds the
  values of \<open>pool\<close>, each as often as \<open>pool\<close> does, and, for a consistent comparator, it
  is sorted: \<^verbatim>\<open>transactionSortFunc\<close> answers a number that is not positive for
  each element and each element after it.
\<close>

theorem popSorted_refines_remove_in_order:
  assumes "pool_wf p" and "0 \<le> limit"
  shows "popSortedUnconfirmedTransactions sc limit p =
           (Inr (take (nat limit)
                  (array_sort (\<lambda>a b. transactionSortFunc sc (store p a) (store p b))
                     (object_values (pool p)))),
            remove_in_order sc
              (take (nat limit)
                 (array_sort (\<lambda>a b. transactionSortFunc sc (store p a) (store p b))
                    (object_values (pool p)))) p)
         \<and> (\<forall>t \<in> set (take (nat limit)
                  (array_sort (\<lambda>a b. transactionSortFunc sc (store p a) (store p b))
                     (object_values (pool p)))).
               absent (snd (popSortedUnconfirmedTransactions sc limit p)) t)
         \<and> mset (array_sort (\<lambda>a b. transactionSortFunc sc (store p a) (store p b))
                    (object_values (pool p))) = mset (map snd (pool p))
         \<and> (consistent_comparator (transactionSortFunc sc) \<longrightarrow>
              sorted_wrt (\<lambda>a b. transactionSortFunc sc (store p a) (store p b) \<le> 0)
                (array_sort (\<lambda>a b. transactionSortFunc sc (store p a) (store p b))
                   (object_values (pool p))))"
proof -
  let ?sorted = "array_sort (\<lambda>a b. transactionSortFunc sc (store p a) (store p b))
                   (object_values (pool p))"
  let ?ts = "take (nat limit) ?sorted"
  have sl: "slice0 limit ?sorted = ?ts" using assms(2) by (simp add: slice0_def)
  have "set ?ts \<subseteq> set (map snd (pool p))"
    using set_take_subset[of "nat limit" ?sorted]
    by (simp only: set_array_sort set_object_values)
  then have "\<forall>t \<in> set ?ts. map_of (pool p) (trs_id (store p t)) = Some t \<or> absent p t"
    using pool_wf_value[OF assms(1)] by blast
  from remove_each_in_order[OF assms(1) this, of sc]
  have each: "remove_each sc ?ts p = (Inr (), remove_in_order sc ?ts p)"
    and abs: "\<forall>t \<in> set ?ts. absent (remove_in_order sc ?ts p) t" by simp_all
  have eq: "popSortedUnconfirmedTransactions sc limit p = (Inr ?ts, remove_in_order sc ?ts p)"
    by (simp add: popSortedUnconfirmedTransactions_def Let_def sl each)
  have perm: "mset ?sorted = mset (map snd (pool p))"
    by (simp only: mset_array_sort mset_object_values)
  have sorted: "sorted_wrt (\<lambda>a b. transactionSortFunc sc (store p a) (store p b) \<le> 0) ?sorted"
    if "consistent_comparator (transactionSortFunc sc)"
    using consistent_comparator_store[OF that, of "store p"] by (rule sorted_array_sort)
  from eq abs perm sorted show ?thesis by simp
qed

lemmas eval_defs = push_def has_def isPotentialConflict_def bucket_def set_status_def Let_def
        sc_fail_def sc0_def pool0_def store0_def trs0_def AList.delete_eq array_sort_def

lemma pool_failed_eval:
  "pool_failed =
     pool0\<lparr>store := store0(0 := trs0\<lparr>status := DECLINED\<rparr>),
           poolByRecipient := [''B'' \<mapsto> [0]],
           poolBySender := [''A'' \<mapsto> [0]]\<rparr>"
  by (simp add: pool_failed_def eval_defs)

lemma pool1_eval:
  "pool1 =
     pool0\<lparr>store := store0(0 := trs0\<lparr>status := UNCOFIRM_APPLIED\<rparr>,
                            2 := (store0 2)\<lparr>status := UNCOFIRM_APPLIED\<rparr>),
           pool := [(''1'', 0), (''3'', 2)],
           poolByRecipient := [''B'' \<mapsto> [0], ''D'' \<mapsto> [2]],
           poolBySender := [''A'' \<mapsto> [0], ''C'' \<mapsto> [2]]\<rparr>"
  by (simp add: pool1_def eval_defs fun_upd_twist)

lemma pool_wf_pool1: "pool_wf pool1"
  by (simp add: pool_wf_def pool1_eval pool0_def store0_def trs0_def)

lemma pool2_eval:
  "pool2 =
     pool0\<lparr>store := store2(7 := (store2 7)\<lparr>status := UNCOFIRM_APPLIED\<rparr>,
                            2 := (store2 2)\<lparr>status := UNCOFIRM_APPLIED\<rparr>,
                            1 := (store2 1)\<lparr>status := UNCOFIRM_APPLIED\<rparr>,
                            0 := (store2 0)\<lparr>status := UNCOFIRM_APPLIED\<rparr>),
           pool := [(''17190511997607511181'', 7), (''3'', 2), (''2'', 1), (''1'', 0)],
           poolByRecipient := [''F'' \<mapsto> [7], ''D'' \<mapsto> [2], ''B'' \<mapsto> [0]],
           poolBySender := [''E'' \<mapsto> [7], ''C'' \<mapsto> [2], ''A'' \<mapsto> [1, 0]]\<rparr>"
  by (simp add: pool2_def store2_def eval_defs fun_upd_twist)

lemmas pool2_facts = pool2_eval pool0_def store2_def store0_def trs0_def sc0_def bucket_def
  array_sort_def

lemma pool_wf_pool2: "pool_wf pool2"
  by (simp add: pool_wf_def pool2_facts)

lemma object_values_pool2: "object_values (pool pool2) = [0, 1, 2, 7]"
  by (simp add: pool2_eval pool0_def object_values_def array_index_def digit_of_def
        index_of_key_def Let_def)

lemma consistent_comparator_sc0: "consistent_comparator (transactionSortFunc sc0)"
  by (auto simp: consistent_comparator_def sc0_def)

theorem popSorted_refines_remove_in_order_witness:
  "pool_wf pool2 \<and> (0::int) \<le> 3 \<and> consistent_comparator (transactionSortFunc sc0)
   \<and> map snd (pool pool2) = [7, 2, 1, 0]
   \<and> object_values (pool pool2) = [0, 1, 2, 7]
   \<and> map (\<lambda>t. timestamp (store pool2 t)) [0, 1, 2, 7] = [100, 50, 100, 100]
   \<and> fst (popSortedUnconfirmedTransactions sc0 3 pool2) = Inr [1, 0, 2]
   \<and> snd (popSortedUnconfirmedTransactions sc0 3 pool2) = remove_in_order sc0 [1, 0, 2] pool2
   \<and> pool (snd (popSortedUnconfirmedTransactions sc0 3 pool2)) = [(''17190511997607511181'', 7)]
   \<and> absent (snd (popSortedUnconfirmedTransactions sc0 3 pool2)) 1
   \<and> absent (snd (popSortedUnconfirmedTransactions sc0 3 pool2)) 0
   \<and> absent (snd (popSortedUnconfirmedTransactions sc0 3 pool2)) 2
   \<and> sorted_wrt (\<lambda>a b. transactionSortFunc sc0 (store pool2 a) (store pool2 b) \<le> 0)
        [1, 0, 2, 7]"
proof -
  have s: "array_sort (\<lambda>a b. transactionSortFunc sc0 (store pool2 a) (store pool2 b))
             (object_values (pool pool2)) = [1, 0, 2, 7]"
    unfolding object_values_pool2 by (simp add: pool2_facts)
  have le: "(0::int) \<le> 3" by simp
  have t: "take (nat 3) [1, 0, 2, 7::nat] = [1, 0, 2]" by (simp add: numeral_3_eq_3)
  have m: "map snd (pool pool2) = [7, 2, 1, 0]"
    and ts: "map (\<lambda>t. timestamp (store pool2 t)) [0, 1, 2, 7] = [100, 50, 100, 100]"
    by (simp_all add: pool2_facts)
  have p: "pool (remove_in_order sc0 [1, 0, 2] pool2) = [(''17190511997607511181'', 7)]"
    by (simp add: remove_in_order_def remove_trs_pool pool2_facts AList.delete_eq)
  note th = popSorted_refines_remove_in_order [OF pool_wf_pool2 le, of sc0, unfolded s t]
  have eq: "popSortedUnconfirmedTransactions sc0 3 pool2 =
              (Inr [1, 0, 2], remove_in_order sc0 [1, 0, 2] pool2)"
    by (rule th[THEN conjunct1])
  have abs: "\<forall>t \<in> set [1, 0, 2]. absent (snd (popSortedUnconfirmedTransactions sc0 3 pool2)) t"
    by (rule th[THEN conjunct2, THEN conjunct1])
  have srt: "sorted_wrt (\<lambda>a b. transactionSortFunc sc0 (store pool2 a) (store pool2 b) \<le> 0)
                [1, 0, 2, 7]"
    using th[THEN conjunct2, THEN conjunct2, THEN conjunct2] consistent_comparator_sc0
    by (rule mp)
  from abs have abs': "absent (snd (popSortedUnconfirmedTransactions sc0 3 pool2)) 1"
    "absent (snd (popSortedUnconfirmedTransactions sc0 3 pool2)) 0"
    "absent (snd (popSortedUnconfirmedTransactions sc0 3 pool2)) 2" by simp_all
  have f: "fst (popSortedUnconfirmedTransactions sc0 3 pool2) = Inr [1, 0, 2]"
    and r: "snd (popSortedUnconfirmedTransactions sc0 3 pool2) =
              remove_in_order sc0 [1, 0, 2] pool2"
    by (simp_all add: eq)
  have p': "pool (snd (popSortedUnconfirmedTransactions sc0 3 pool2)) =
              [(''17190511997607511181'', 7)]"
    unfolding r by (rule p)
  from pool_wf_pool2 le consistent_comparator_sc0 m object_values_pool2 ts f r p' abs' srt
  show ?thesis by (intro conjI)
qed

section \<open>Properties of the conflict detector\<close>

lemma indexOf_member_nonneg: "x \<in> set xs \<Longrightarrow> 0 \<le> indexOf xs x"
  using indexOf_nonneg_or_minus1[of xs x] indexOf_minus1_iff[of xs x] by auto

lemma indexOf_last_iff:
  "x \<in> set xs \<Longrightarrow>
     (indexOf xs x = int (length xs) - 1) = (last xs = x \<and> x \<notin> set (butlast xs))"
proof (induction xs)
  case Nil
  then show ?case by simp
next
  case (Cons y ys)
  show ?case
  proof (cases "y = x")
    case True
    then show ?thesis by (cases ys) auto
  next
    case False
    with Cons.prems have mem: "x \<in> set ys" by simp
    then have nn: "0 \<le> indexOf ys x" by (rule indexOf_member_nonneg)
    from mem have ne: "ys \<noteq> []" by auto
    from Cons.IH[OF mem] False nn ne show ?thesis by (auto simp: Let_def)
  qed
qed

lemma last_sorted_with_self:
  assumes "last (array_sort cmp (dep @ [x])) = x"
  shows "(x \<in> set (butlast (array_sort cmp (dep @ [x])))) = (x \<in> set dep)"
proof -
  let ?s = "array_sort cmp (dep @ [x])"
  have ne: "?s \<noteq> []"
    using length_array_sort[of cmp "dep @ [x]"] by auto
  then have "?s = butlast ?s @ [x]" using assms by (metis append_butlast_last_id)
  then have "mset ?s = add_mset x (mset (butlast ?s))" by (metis mset.simps(2) mset_append union_mset_add_mset_right add.right_neutral mset.simps(1))
  moreover have "mset ?s = add_mset x (mset dep)" by (simp add: mset_array_sort)
  ultimately have "mset (butlast ?s) = mset dep" by simp
  then show ?thesis by (metis set_mset_mset)
qed

lemma find_Some_iff_Bex: "(\<exists>y. find P xs = Some y) = (\<exists>x \<in> set xs. P x)"
  using find_None_iff[of P xs] by auto

text \<open>
  C3, as the code has it. \<^verbatim>\<open>isPotentialConflict\<close> answers false when the sender
  (derived from the public key) has no dependent transaction; otherwise true for a
  SIGNATURE; otherwise true for a VOTE when a dependent is a VOTE and for a REFERRAL
  when a dependent is a REFERRAL; otherwise true exactly when the transaction object
  is itself among the dependents, or is not the last element of the dependents
  extended with it and sorted by \<^verbatim>\<open>transactionSortFunc\<close>. (\<^verbatim>\<open>indexOf\<close> finds the
  first of two occurrences, which is never the last position.)
\<close>

theorem isPotentialConflict_rules:
  "isPotentialConflict sc p trs =
     (let sender = generateAddressByPublicKey sc (senderPublicKey (store p trs));
          dependent = bucket (poolByRecipient p) sender @ bucket (poolBySender p) sender
      in if dependent = [] then False
         else if trs_type (store p trs) = SIGNATURE then True
         else if (trs_type (store p trs) = VOTE
                    \<and> (\<exists>d \<in> set dependent. trs_type (store p d) = VOTE))
                 \<or> (trs_type (store p trs) = REFERRAL
                    \<and> (\<exists>d \<in> set dependent. trs_type (store p d) = REFERRAL)) then True
         else trs \<in> set dependent
              \<or> last (array_sort (\<lambda>a b. transactionSortFunc sc (store p a) (store p b))
                        (dependent @ [trs])) \<noteq> trs)"
proof -
  define dep where "dep = bucket (poolByRecipient p) (generateAddressByPublicKey sc (senderPublicKey (store p trs)))
     @ bucket (poolBySender p) (generateAddressByPublicKey sc (senderPublicKey (store p trs)))"
  define sorted where "sorted = array_sort (\<lambda>a b. transactionSortFunc sc (store p a) (store p b)) (dep @ [trs])"
  have mem: "trs \<in> set sorted" by (simp add: sorted_def set_array_sort)
  have code: "isPotentialConflict sc p trs =
     (if length dep = 0 then False
      else if trs_type (store p trs) = SIGNATURE then True
      else if trs_type (store p trs) = VOTE
              \<and> find (\<lambda>t. trs_type (store p t) = VOTE) dep \<noteq> None then True
      else if trs_type (store p trs) = REFERRAL
              \<and> find (\<lambda>t. trs_type (store p t) = REFERRAL) dep \<noteq> None then True
      else indexOf sorted trs \<noteq> int (length sorted) - 1)"
    unfolding isPotentialConflict_def Let_def dep_def sorted_def ..
  have spec: "(let sender = generateAddressByPublicKey sc (senderPublicKey (store p trs));
          dependent = bucket (poolByRecipient p) sender @ bucket (poolBySender p) sender
      in if dependent = [] then False
         else if trs_type (store p trs) = SIGNATURE then True
         else if (trs_type (store p trs) = VOTE
                    \<and> (\<exists>d \<in> set dependent. trs_type (store p d) = VOTE))
                 \<or> (trs_type (store p trs) = REFERRAL
                    \<and> (\<exists>d \<in> set dependent. trs_type (store p d) = REFERRAL)) then True
         else trs \<in> set dependent
              \<or> last (array_sort (\<lambda>a b. transactionSortFunc sc (store p a) (store p b))
                        (dependent @ [trs])) \<noteq> trs) =
     (if dep = [] then False
      else if trs_type (store p trs) = SIGNATURE then True
      else if (trs_type (store p trs) = VOTE \<and> (\<exists>d \<in> set dep. trs_type (store p d) = VOTE))
              \<or> (trs_type (store p trs) = REFERRAL
                  \<and> (\<exists>d \<in> set dep. trs_type (store p d) = REFERRAL)) then True
      else trs \<in> set dep \<or> last sorted \<noteq> trs)"
    unfolding Let_def dep_def sorted_def ..
  have "(indexOf sorted trs \<noteq> int (length sorted) - 1) = (trs \<in> set dep \<or> last sorted \<noteq> trs)"
  proof (cases "last sorted = trs")
    case True
    then show ?thesis
      using indexOf_last_iff[OF mem] last_sorted_with_self[of _ dep trs] by (simp add: sorted_def)
  next
    case False
    then show ?thesis using indexOf_last_iff[OF mem] by simp
  qed
  then show ?thesis
    unfolding code spec by (auto simp: find_Some_iff_Bex)
qed

lemmas pool1_facts = pool1_eval pool0_def store0_def trs0_def sc0_def bucket_def array_sort_def

theorem isPotentialConflict_rules_witness:
  "isPotentialConflict sc0 pool1 1 \<and> \<not> isPotentialConflict sc0 pool0 1"
  using isPotentialConflict_rules [of sc0 pool1 1] isPotentialConflict_rules [of sc0 pool0 1]
  by (simp add: pool1_facts)

theorem isPotentialConflict_self_counterexample:
  "generateAddressByPublicKey sc0 (senderPublicKey (store pool1 0)) = ''A''
   \<and> getTransactionsByRecipientId pool1 ''A'' @ getTransactionsBySenderId pool1 ''A'' = [0]
   \<and> trs_type (store pool1 0) = SEND
   \<and> last (array_sort (\<lambda>a b. transactionSortFunc sc0 (store pool1 a) (store pool1 b))
              ([0] @ [0])) = 0
   \<and> isPotentialConflict sc0 pool1 0"
  by (simp add: isPotentialConflict_def getTransactionsByRecipientId_def
        getTransactionsBySenderId_def pool1_facts)

text \<open>
  C1, on the empty pool and a SEND from A to B whose \<^verbatim>\<open>newApplyUnconfirmed\<close>
  throws. The transaction passes the lock, duplicate and conflict checks; \<^verbatim>\<open>push\<close>
  returns false, sets the status DECLINED and deletes the transaction from \<open>pool\<close>,
  but the buckets \<^verbatim>\<open>poolBySender[A]\<close> and \<^verbatim>\<open>poolByRecipient[B]\<close> still hold it:
  the catch block undoes one of the three insertions.
\<close>

theorem push_apply_failure_keeps_buckets:
  "\<not> locked pool0 \<and> \<not> has pool0 0 \<and> \<not> isPotentialConflict sc_fail pool0 0
   \<and> \<not> fst (newApplyUnconfirmed sc_fail (store pool0 0) (ledger pool0))
   \<and> fst (push sc_fail 0 False False pool0) = False
   \<and> status (store (snd (push sc_fail 0 False False pool0)) 0) = DECLINED
   \<and> get (snd (push sc_fail 0 False False pool0)) ''1'' = None
   \<and> senderId (store pool0 0) = ''A'' \<and> recipientId (store pool0 0) = ''B''
   \<and> getTransactionsBySenderId (snd (push sc_fail 0 False False pool0)) ''A'' = [0]
   \<and> getTransactionsByRecipientId (snd (push sc_fail 0 False False pool0)) ''B'' = [0]"
  using pool_failed_eval
  by (simp add: pool_failed_def has_def get_def isPotentialConflict_def
        getTransactionsByRecipientId_def getTransactionsBySenderId_def
        pool0_def store0_def trs0_def sc0_def sc_fail_def bucket_def push_def Let_def
        set_status_def AList.delete_eq)

section \<open>Membership by id\<close>









section \<open>The conflicted queue\<close>

lemma push_conflicted_effect:
  "conflictedQueue (pushInConflictedQueue sc trs q) =
     conflictedQueue q @
       [(trs, getTime sc (ledger (transactionPool q)) div 1000 + TRANSACTION_QUEUE_EXPIRE sc)]
   \<and> status (store (transactionPool (pushInConflictedQueue sc trs q)) trs) = QUEUED_AS_CONFLICTED
   \<and> queue (pushInConflictedQueue sc trs q) = queue q"
  by (simp add: pushInConflictedQueue_def set_status_def Let_def)

lemma verify_conflictedQueue: "conflictedQueue (snd (verify sc trs sender q)) = conflictedQueue q"
  by (simp add: verify_def Let_def sendVerifiedMessage_def set_ledger_def split: prod.splits)

lemma queue_push_conflictedQueue: "conflictedQueue (fst (queue_push sc trs q)) = conflictedQueue q"
  by (simp add: queue_push_def Let_def)

lemma verify_conflictedQueue_eq:
  "verify sc trs sender q = (ok, q') \<Longrightarrow> conflictedQueue q' = conflictedQueue q"
  using verify_conflictedQueue[of sc trs sender q] by simp

lemma queue_push_conflictedQueue_eq:
  "queue_push sc trs q = (q', n) \<Longrightarrow> conflictedQueue q' = conflictedQueue q"
  using queue_push_conflictedQueue[of sc trs q] by simp

lemma process_conflict:
  assumes "queue q \<noteq> []" "\<not> queue_locked q" "\<not> has (transactionPool q) (hd (queue q))"
    "isPotentialConflict sc (transactionPool q) (hd (queue q))"
  shows "process sc q = (pushInConflictedQueue sc (hd (queue q)) (q\<lparr>queue := tl (queue q)\<rparr>), 1)"
  using assms by (cases "queue q") (simp_all add: process_def queue_pop_def Let_def)

lemma process_no_conflict:
  assumes "\<not> (queue q \<noteq> [] \<and> \<not> queue_locked q \<and> \<not> has (transactionPool q) (hd (queue q))
            \<and> isPotentialConflict sc (transactionPool q) (hd (queue q)))"
  shows "conflictedQueue (fst (process sc q)) = conflictedQueue q"
proof (cases "queue q")
  case Nil
  then show ?thesis by (simp add: process_def)
next
  case (Cons trs rest)
  show ?thesis
    using assms Cons
    by (auto simp: process_def queue_pop_def Let_def set_ledger_def
        split: prod.splits option.splits
        dest!: verify_conflictedQueue_eq queue_push_conflictedQueue_eq)
qed

text \<open>
  C6. \<^verbatim>\<open>pushInConflictedQueue\<close> appends to \<open>conflictedQueue\<close> the transaction with
  an expiry of the clock's time in whole seconds plus \<^verbatim>\<open>TRANSACTION_QUEUE_EXPIRE\<close>,
  and sets the status QUEUED_AS_CONFLICTED. A call of \<^verbatim>\<open>process\<close> hands the
  transaction it takes from the queue to this operation when the queue is not empty
  and not locked, the pool does not have the transaction and \<^verbatim>\<open>isPotentialConflict\<close>
  reports a conflict; in every other case it leaves \<open>conflictedQueue\<close> as it is.
\<close>

theorem conflicted_routing:
  "conflictedQueue (pushInConflictedQueue sc trs q) =
     conflictedQueue q @
       [(trs, getTime sc (ledger (transactionPool q)) div 1000 + TRANSACTION_QUEUE_EXPIRE sc)]
   \<and> status (store (transactionPool (pushInConflictedQueue sc trs q)) trs) = QUEUED_AS_CONFLICTED
   \<and> (queue q \<noteq> [] \<and> \<not> queue_locked q \<and> \<not> has (transactionPool q) (hd (queue q))
        \<and> isPotentialConflict sc (transactionPool q) (hd (queue q))
      \<longrightarrow> process sc q =
            (pushInConflictedQueue sc (hd (queue q)) (q\<lparr>queue := tl (queue q)\<rparr>), 1))
   \<and> (\<not> (queue q \<noteq> [] \<and> \<not> queue_locked q \<and> \<not> has (transactionPool q) (hd (queue q))
           \<and> isPotentialConflict sc (transactionPool q) (hd (queue q)))
      \<longrightarrow> conflictedQueue (fst (process sc q)) = conflictedQueue q)"
  using push_conflicted_effect[of sc trs q] process_conflict[of q sc] process_no_conflict[of q sc]
  by blast

theorem conflicted_routing_witness:
  "queue (queue0\<lparr>queue := [1]\<rparr>) \<noteq> [] \<and> \<not> queue_locked (queue0\<lparr>queue := [1]\<rparr>)
   \<and> \<not> has pool1 1 \<and> isPotentialConflict sc0 pool1 1
   \<and> conflictedQueue (fst (process sc0 (queue0\<lparr>queue := [1]\<rparr>))) = [(1, 65)]
   \<and> status (store (transactionPool (fst (process sc0 (queue0\<lparr>queue := [1]\<rparr>)))) 1)
       = QUEUED_AS_CONFLICTED
   \<and> \<not> isPotentialConflict sc0 pool1 4
   \<and> conflictedQueue (fst (process sc0 (queue0\<lparr>queue := [4]\<rparr>))) = []"
proof -
  have c1: "isPotentialConflict sc0 pool1 1" and c4: "\<not> isPotentialConflict sc0 pool1 4"
    by (simp_all add: isPotentialConflict_def pool1_facts)
  have h1: "\<not> has pool1 1" by (simp add: has_def pool1_facts)
  show ?thesis
    using conflicted_routing [of sc0 1 "queue0\<lparr>queue := []\<rparr>" ]
      conflicted_routing [of sc0 1 "queue0\<lparr>queue := [1]\<rparr>"]
      conflicted_routing [of sc0 4 "queue0\<lparr>queue := [4]\<rparr>"] c1 c4 h1
    by (simp add: queue0_def sc0_def pool1_eval pool0_def)
qed

section \<open>The invariant of the indexes\<close>

lemma pool_inv_imp_P1: "pool_inv p \<Longrightarrow> P1 p"
  unfolding pool_inv_def P1_def in_bySender_def in_byRecipient_def by blast

lemma pool_wf_alt:
  "pool_wf p =
     (distinct (map fst (pool p))
      \<and> (\<forall>k t. map_of (pool p) k = Some t \<longrightarrow>
            trs_id (store p t) = k \<and> poolBySender p (senderId (store p t)) \<noteq> None))"
proof (cases "distinct (map fst (pool p))")
  case True
  then have "\<And>k t. ((k, t) \<in> set (pool p)) = (map_of (pool p) k = Some t)" by simp
  then show ?thesis using True by (auto simp: pool_wf_def)
next
  case False
  then show ?thesis by (simp add: pool_wf_def)
qed

lemma pool_inv_empty:
  "pool p = [] \<Longrightarrow> poolBySender p = Map.empty \<Longrightarrow> poolByRecipient p = Map.empty \<Longrightarrow> pool_inv p"
  by (simp add: pool_inv_def pool_wf_def in_byId_def bucket_def)

text \<open>The invariant reads the four index fields of the objects only.\<close>

lemma pool_inv_cong:
  assumes "pool p' = pool p" "poolBySender p' = poolBySender p"
    "poolByRecipient p' = poolByRecipient p"
    "\<And>r. trs_id (store p' r) = trs_id (store p r)"
    "\<And>r. senderId (store p' r) = senderId (store p r)"
    "\<And>r. recipientId (store p' r) = recipientId (store p r)"
    "\<And>r. trs_type (store p' r) = trs_type (store p r)"
  shows "pool_inv p' = pool_inv p"
  by (simp add: pool_inv_def pool_wf_def in_byId_def in_bySender_def in_byRecipient_def assms)

lemma pool_inv_remove_trs:
  assumes inv: "pool_inv p" and ag: "agrees_with_stored p t"
  shows "pool_inv (snd (remove_trs sc t p))"
proof (cases rule: remove_trs_cases[of p t sc])
  case absent
  then show ?thesis using inv by simp
next
  case (thrown r)
  from thrown(1) ag have s: "senderId (store p r) = senderId (store p t)"
    by (simp add: agrees_with_stored_def)
  from inv thrown(1) have "trs_id (store p r) = trs_id (store p t)"
    by (simp add: pool_inv_def pool_wf_alt)
  with thrown(1) have "in_byId p r" by (simp add: in_byId_def)
  with inv have "in_bySender p r" by (simp add: pool_inv_def)
  with s thrown(2) show ?thesis by (simp add: in_bySender_def bucket_def)
next
  case (removed r b)
  let ?i = "trs_id (store p t)"
  let ?s = "senderId (store p t)"
  let ?k = "recipientId (store p t)"
  let ?p' = "snd (remove_trs sc t p)"
  from removed(1) ag have s: "senderId (store p r) = ?s" and k: "recipientId (store p r) = ?k"
    by (simp_all add: agrees_with_stored_def)
  have wf: "pool_wf p" and
    i2: "\<And>s x. x \<in> set (bucket (poolBySender p) s) \<Longrightarrow> senderId (store p x) = s \<and> in_byId p x" and
    i3: "\<And>k x. x \<in> set (bucket (poolByRecipient p) k) \<Longrightarrow>
           recipientId (store p x) = k \<and> trs_type (store p x) = SEND \<and> in_byId p x" and
    i4: "\<And>x. in_byId p x \<Longrightarrow> in_bySender p x \<and> (trs_type (store p x) = SEND \<longrightarrow> in_byRecipient p x)"
    using inv by (simp_all add: pool_inv_def)
  have st: "store ?p' = store p" by simp
  have m: "\<And>j. map_of (pool ?p') j = (if j = ?i then None else map_of (pool p) j)"
    by (simp add: remove_trs_pool map_of_delete_other)
  have bs: "\<And>s. bucket (poolBySender ?p') s =
       (if s = ?s then filter (\<lambda>x. trs_id (store p x) \<noteq> ?i) (bucket (poolBySender p) ?s)
        else bucket (poolBySender p) s)"
    using removed(2) by (simp add: removed(3) bucket_upd bucket_def)
  have br: "\<And>k. bucket (poolByRecipient ?p') k =
       (if k = ?k then filter (\<lambda>x. trs_id (store p x) \<noteq> ?i) (bucket (poolByRecipient p) ?k)
        else bucket (poolByRecipient p) k)"
    by (simp add: removed(3) bucket_upd)
  have only: "\<And>x. in_byId p x \<Longrightarrow> trs_id (store p x) = ?i \<Longrightarrow> x = r"
    using removed(1) by (simp add: in_byId_def)
  have byId: "\<And>x. in_byId ?p' x = (in_byId p x \<and> trs_id (store p x) \<noteq> ?i)"
    by (auto simp: in_byId_def st m)
  have 1: "pool_wf ?p'" using wf by (rule pool_wf_remove_trs)
  have 2: "\<forall>s x. x \<in> set (bucket (poolBySender ?p') s) \<longrightarrow>
            senderId (store ?p' x) = s \<and> in_byId ?p' x"
  proof (intro allI impI)
    fix s0 x assume x: "x \<in> set (bucket (poolBySender ?p') s0)"
    show "senderId (store ?p' x) = s0 \<and> in_byId ?p' x"
    proof (cases "s0 = ?s")
      case True
      with x show ?thesis using i2[of x ?s] by (simp add: bs byId st)
    next
      case False
      with x have x0: "x \<in> set (bucket (poolBySender p) s0)" by (simp add: bs)
      from i2[OF x0] have sx: "senderId (store p x) = s0" and ix: "in_byId p x" by simp_all
      have "trs_id (store p x) \<noteq> ?i"
      proof
        assume "trs_id (store p x) = ?i"
        from only[OF ix this] sx s False show False by simp
      qed
      with sx ix show ?thesis by (simp add: byId st)
    qed
  qed
  have 3: "\<forall>k x. x \<in> set (bucket (poolByRecipient ?p') k) \<longrightarrow>
            recipientId (store ?p' x) = k \<and> trs_type (store ?p' x) = SEND \<and> in_byId ?p' x"
  proof (intro allI impI)
    fix k0 x assume x: "x \<in> set (bucket (poolByRecipient ?p') k0)"
    show "recipientId (store ?p' x) = k0 \<and> trs_type (store ?p' x) = SEND \<and> in_byId ?p' x"
    proof (cases "k0 = ?k")
      case True
      with x show ?thesis using i3[of x ?k] by (simp add: br byId st)
    next
      case False
      with x have x0: "x \<in> set (bucket (poolByRecipient p) k0)" by (simp add: br)
      from i3[OF x0] have kx: "recipientId (store p x) = k0" and tx: "trs_type (store p x) = SEND"
        and ix: "in_byId p x" by simp_all
      have "trs_id (store p x) \<noteq> ?i"
      proof
        assume "trs_id (store p x) = ?i"
        from only[OF ix this] kx k False show False by simp
      qed
      with kx tx ix show ?thesis by (simp add: byId st)
    qed
  qed
  have 4: "\<forall>x. in_byId ?p' x \<longrightarrow>
            in_bySender ?p' x \<and> (trs_type (store ?p' x) = SEND \<longrightarrow> in_byRecipient ?p' x)"
  proof (intro allI impI)
    fix x assume "in_byId ?p' x"
    then have ix: "in_byId p x" and ne: "trs_id (store p x) \<noteq> ?i" by (simp_all add: byId)
    from i4[OF ix] ne show "in_bySender ?p' x \<and> (trs_type (store ?p' x) = SEND \<longrightarrow> in_byRecipient ?p' x)"
      by (auto simp: in_bySender_def in_byRecipient_def st bs br)
  qed
  from 1 2 3 4 show ?thesis unfolding pool_inv_def by blast
qed

lemma own_agrees:
  "map_of (pool p) (trs_id (store p t)) = Some t \<or> map_of (pool p) (trs_id (store p t)) = None
     \<Longrightarrow> agrees_with_stored p t"
  by (auto simp: agrees_with_stored_def)

lemma own_remove_trs:
  assumes "map_of (pool p) (trs_id (store p t)) = Some t \<or> map_of (pool p) (trs_id (store p t)) = None"
  shows "map_of (pool (snd (remove_trs sc x p))) (trs_id (store p t)) = Some t
         \<or> map_of (pool (snd (remove_trs sc x p))) (trs_id (store p t)) = None"
  using assms
  by (cases "trs_id (store p t) = trs_id (store p x)")
     (auto simp: remove_trs_pool map_of_delete_other)

lemma pool_inv_remove_collect:
  assumes "pool_inv p"
    and "\<forall>t \<in> set ts. map_of (pool p) (trs_id (store p t)) = Some t
                       \<or> map_of (pool p) (trs_id (store p t)) = None"
  shows "pool_inv (snd (remove_collect sc ts acc p))"
  using assms
proof (induction ts arbitrary: p acc)
  case Nil
  then show ?case by simp
next
  case (Cons x ts)
  let ?p' = "snd (remove_trs sc x p)"
  have inv': "pool_inv ?p'"
    using Cons.prems by (intro pool_inv_remove_trs own_agrees) simp_all
  have own': "\<forall>t \<in> set ts. map_of (pool ?p') (trs_id (store ?p' t)) = Some t
                       \<or> map_of (pool ?p') (trs_id (store ?p' t)) = None"
    using Cons.prems(2) own_remove_trs[of p _ sc x] by simp
  show ?case
  proof (cases "remove_trs sc x p")
    case (Pair res p1)
    with inv' own' have inv1: "pool_inv p1"
      and own1: "\<forall>t \<in> set ts. map_of (pool p1) (trs_id (store p1 t)) = Some t
                       \<or> map_of (pool p1) (trs_id (store p1 t)) = None" by simp_all
    show ?thesis
    proof (cases res)
      case (Inl e)
      with Pair inv1 show ?thesis by simp
    next
      case (Inr removed)
      with Pair Cons.IH[OF inv1 own1] show ?thesis by simp
    qed
  qed
qed

lemma pool_inv_remove_each:
  assumes "pool_inv p"
    and "\<forall>t \<in> set ts. map_of (pool p) (trs_id (store p t)) = Some t
                       \<or> map_of (pool p) (trs_id (store p t)) = None"
  shows "pool_inv (snd (remove_each sc ts p))"
  using assms
proof (induction ts arbitrary: p)
  case Nil
  then show ?case by simp
next
  case (Cons x ts)
  let ?p' = "snd (remove_trs sc x p)"
  have inv': "pool_inv ?p'"
    using Cons.prems by (intro pool_inv_remove_trs own_agrees) simp_all
  have own': "\<forall>t \<in> set ts. map_of (pool ?p') (trs_id (store ?p' t)) = Some t
                       \<or> map_of (pool ?p') (trs_id (store ?p' t)) = None"
    using Cons.prems(2) own_remove_trs[of p _ sc x] by simp
  show ?case
  proof (cases "remove_trs sc x p")
    case (Pair res p1)
    with inv' own' have inv1: "pool_inv p1"
      and own1: "\<forall>t \<in> set ts. map_of (pool p1) (trs_id (store p1 t)) = Some t
                       \<or> map_of (pool p1) (trs_id (store p1 t)) = None" by simp_all
    show ?thesis
    proof (cases res)
      case (Inl e)
      with Pair inv1 show ?thesis by simp
    next
      case (Inr removed)
      with Pair Cons.IH[OF inv1 own1] show ?thesis by simp
    qed
  qed
qed

lemma pool_inv_removeTransactionBySenderId:
  assumes "pool_inv p"
  shows "pool_inv (snd (removeTransactionBySenderId sc a p))"
  unfolding removeTransactionBySenderId_def getTransactionsBySenderId_def
  using assms by (intro pool_inv_remove_collect) (auto simp: pool_inv_def in_byId_def)

lemma pool_inv_removeTransactionByRecipientId:
  assumes "pool_inv p"
  shows "pool_inv (snd (removeTransactionByRecipientId sc a p))"
  unfolding removeTransactionByRecipientId_def getTransactionsByRecipientId_def
  using assms by (intro pool_inv_remove_collect) (auto simp: pool_inv_def in_byId_def)

lemma pool_inv_popSorted:
  assumes "pool_inv p"
  shows "pool_inv (snd (popSortedUnconfirmedTransactions sc limit p))"
proof -
  let ?ts = "slice0 limit (array_sort (\<lambda>a b. transactionSortFunc sc (store p a) (store p b))
               (object_values (pool p)))"
  from assms have wf: "pool_wf p" by (simp add: pool_inv_def)
  have "set ?ts \<subseteq> set (array_sort (\<lambda>a b. transactionSortFunc sc (store p a) (store p b))
               (object_values (pool p)))" by (rule set_slice0)
  then have "set ?ts \<subseteq> set (map snd (pool p))"
    by (simp only: set_array_sort set_object_values)
  then have own: "\<forall>t \<in> set ?ts. map_of (pool p) (trs_id (store p t)) = Some t
                       \<or> map_of (pool p) (trs_id (store p t)) = None"
    using pool_wf_value[OF wf] by blast
  have "snd (popSortedUnconfirmedTransactions sc limit p) = snd (remove_each sc ?ts p)"
    by (simp add: popSortedUnconfirmedTransactions_def Let_def split: prod.splits sum.splits)
  with pool_inv_remove_each[OF assms own] show ?thesis by simp
qed

lemma pool_inv_pop:
  "pool_inv p \<Longrightarrow> agrees_with_stored p t \<Longrightarrow> pool_inv (snd (pop sc t p))"
  by (simp add: pop_def Let_def pool_inv_remove_trs)

lemma push_rejected:
  "(locked p \<and> \<not> force) \<or> has p trs \<Longrightarrow> push sc trs b force p = (False, p)"
  by (auto simp: push_def)

lemma push_conflict:
  assumes "\<not> has p trs" "isPotentialConflict sc p trs"
  shows "push sc trs b force p = (False, p)"
proof -
  from assms(1) have "trs_id (store p trs) \<notin> fst ` set (pool p)"
    by (simp add: has_def map_of_eq_None_iff)
  then have "AList.delete (trs_id (store p trs)) (pool p) = pool p"
    by (simp add: AList.delete_id)
  with assms show ?thesis by (simp add: push_def)
qed

lemma push_applied:
  assumes "fst (push sc trs b force p)"
  shows "\<not> has p trs"
    and "pool (snd (push sc trs b force p)) = AList.update (trs_id (store p trs)) trs (pool p)"
    and "poolBySender (snd (push sc trs b force p)) =
           (poolBySender p)(senderId (store p trs) \<mapsto>
              bucket (poolBySender p) (senderId (store p trs)) @ [trs])"
    and "poolByRecipient (snd (push sc trs b force p)) =
           (if trs_type (store p trs) = SEND
            then (poolByRecipient p)(recipientId (store p trs) \<mapsto>
                   bucket (poolByRecipient p) (recipientId (store p trs)) @ [trs])
            else poolByRecipient p)"
    and "store (snd (push sc trs b force p)) =
           (store p)(trs := (store p trs)\<lparr>status := UNCOFIRM_APPLIED\<rparr>)"
  using assms
  by (auto simp: push_def Let_def set_status_def split: prod.splits if_splits)

lemma pool_inv_insert:
  assumes inv: "pool_inv p" and new: "map_of (pool p) (trs_id (store p trs)) = None"
    and pl: "pool p' = AList.update (trs_id (store p trs)) trs (pool p)"
    and bs: "poolBySender p' =
           (poolBySender p)(senderId (store p trs) \<mapsto>
              bucket (poolBySender p) (senderId (store p trs)) @ [trs])"
    and br: "poolByRecipient p' =
           (if trs_type (store p trs) = SEND
            then (poolByRecipient p)(recipientId (store p trs) \<mapsto>
                   bucket (poolByRecipient p) (recipientId (store p trs)) @ [trs])
            else poolByRecipient p)"
    and st: "store p' = store p"
  shows "pool_inv p'"
proof -
  let ?i = "trs_id (store p trs)"
  let ?s = "senderId (store p trs)"
  let ?k = "recipientId (store p trs)"
  have wf: "pool_wf p" and
    i2: "\<And>s x. x \<in> set (bucket (poolBySender p) s) \<Longrightarrow> senderId (store p x) = s \<and> in_byId p x" and
    i3: "\<And>k x. x \<in> set (bucket (poolByRecipient p) k) \<Longrightarrow>
           recipientId (store p x) = k \<and> trs_type (store p x) = SEND \<and> in_byId p x" and
    i4: "\<And>x. in_byId p x \<Longrightarrow> in_bySender p x \<and> (trs_type (store p x) = SEND \<longrightarrow> in_byRecipient p x)"
    using inv by (simp_all add: pool_inv_def)
  have m: "map_of (pool p') = (map_of (pool p))(?i \<mapsto> trs)"
    by (simp add: pl AList.update_conv')
  have d: "distinct (map fst (pool p'))"
    using wf by (simp add: pl pool_wf_def AList.distinct_update)
  have bsb: "\<And>s. bucket (poolBySender p') s =
       (if s = ?s then bucket (poolBySender p) ?s @ [trs] else bucket (poolBySender p) s)"
    by (simp add: bs bucket_upd)
  have brb: "\<And>k. bucket (poolByRecipient p') k =
       (if trs_type (store p trs) = SEND \<and> k = ?k then bucket (poolByRecipient p) ?k @ [trs]
        else bucket (poolByRecipient p) k)"
    by (simp add: br bucket_upd)
  have old: "\<And>x. in_byId p x \<Longrightarrow> trs_id (store p x) \<noteq> ?i"
    using new by (auto simp: in_byId_def)
  have byId: "\<And>x. in_byId p' x = (in_byId p x \<or> x = trs)"
    using new by (auto simp: in_byId_def st m)
  have 1: "pool_wf p'"
    unfolding pool_wf_alt
  proof (intro conjI allI impI)
    show "distinct (map fst (pool p'))" by (rule d)
  next
    fix j x assume "map_of (pool p') j = Some x"
    then have c: "(j = ?i \<and> x = trs) \<or> (j \<noteq> ?i \<and> map_of (pool p) j = Some x)"
      by (auto simp: m split: if_splits)
    with wf show "trs_id (store p' x) = j" by (auto simp: st pool_wf_alt)
    from c wf show "poolBySender p' (senderId (store p' x)) \<noteq> None"
      by (auto simp: st bs pool_wf_alt)
  qed
  have 2: "\<forall>s x. x \<in> set (bucket (poolBySender p') s) \<longrightarrow>
            senderId (store p' x) = s \<and> in_byId p' x"
    using i2 by (auto simp: bsb byId st split: if_splits)
  have 3: "\<forall>k x. x \<in> set (bucket (poolByRecipient p') k) \<longrightarrow>
            recipientId (store p' x) = k \<and> trs_type (store p' x) = SEND \<and> in_byId p' x"
    using i3 by (auto simp: brb byId st split: if_splits)
  have 4: "\<forall>x. in_byId p' x \<longrightarrow>
            in_bySender p' x \<and> (trs_type (store p' x) = SEND \<longrightarrow> in_byRecipient p' x)"
  proof (intro allI impI)
    fix x assume "in_byId p' x"
    then have c: "in_byId p x \<or> x = trs" by (simp add: byId)
    have sub: "\<And>s. set (bucket (poolBySender p) s) \<subseteq> set (bucket (poolBySender p') s)"
      "\<And>k. set (bucket (poolByRecipient p) k) \<subseteq> set (bucket (poolByRecipient p') k)"
      by (auto simp: bsb brb)
    show "in_bySender p' x \<and> (trs_type (store p' x) = SEND \<longrightarrow> in_byRecipient p' x)"
    proof (cases "x = trs")
      case True
      then show ?thesis by (simp add: in_bySender_def in_byRecipient_def bsb brb st)
    next
      case False
      with c have "in_byId p x" by simp
      from i4[OF this] sub show ?thesis
        unfolding in_bySender_def in_byRecipient_def st by blast
    qed
  qed
  from 1 2 3 4 show ?thesis unfolding pool_inv_def by blast
qed

lemma pool_inv_push:
  assumes inv: "pool_inv p"
    and ok: "fst (push sc trs b force p) \<or> (locked p \<and> \<not> force) \<or> has p trs
             \<or> isPotentialConflict sc p trs"
  shows "pool_inv (snd (push sc trs b force p))"
proof (cases "fst (push sc trs b force p)")
  case True
  let ?p' = "snd (push sc trs b force p)"
  define p0 where "p0 = p\<lparr>pool := pool ?p', poolBySender := poolBySender ?p',
                          poolByRecipient := poolByRecipient ?p'\<rparr>"
  from push_applied(1)[OF True] have new: "map_of (pool p) (trs_id (store p trs)) = None"
    by (simp add: has_def)
  have "pool_inv p0"
    using inv new
    by (rule pool_inv_insert) (simp_all add: p0_def push_applied[OF True])
  moreover have "pool_inv ?p' = pool_inv p0"
    by (rule pool_inv_cong) (simp_all add: p0_def push_applied(5)[OF True])
  ultimately show ?thesis by simp
next
  case False
  with ok have "(locked p \<and> \<not> force) \<or> has p trs \<or> isPotentialConflict sc p trs" by simp
  then have "push sc trs b force p = (False, p)"
    using push_rejected[of p force trs sc b] push_conflict[of p trs sc b force] by blast
  with inv show ?thesis by simp
qed

lemma pool_inv_pool0: "pool_inv pool0"
  by (rule pool_inv_empty) (simp_all add: pool0_def)

lemma push0_applied: "fst (push sc0 0 False False pool0)"
  by (simp add: eval_defs)

lemma push2_applied: "fst (push sc0 2 False False (snd (push sc0 0 False False pool0)))"
  by (simp add: eval_defs)

lemma pool_inv_pool1: "pool_inv pool1"
  unfolding pool1_def
  using pool_inv_pool0 push0_applied push2_applied by (intro pool_inv_push) simp_all

text \<open>
  The invariant \<open>pool_inv\<close> implies P1. It is kept by
  \<^verbatim>\<open>popSortedUnconfirmedTransactions\<close>, \<^verbatim>\<open>removeTransactionBySenderId\<close> and
  \<^verbatim>\<open>removeTransactionByRecipientId\<close>; by \<^verbatim>\<open>remove\<close> and \<^verbatim>\<open>pop\<close> when the
  argument agrees with the transaction stored under its id in the sender and the
  recipient; and by \<^verbatim>\<open>push\<close> when it returns true or rejects the transaction before
  inserting it (locked, already there, conflict).
\<close>

theorem pool_inv_preserved:
  assumes "pool_inv p"
  shows "P1 p
    \<and> (fst (push sc trs b force p) \<or> (locked p \<and> \<not> force) \<or> has p trs
          \<or> isPotentialConflict sc p trs
        \<longrightarrow> pool_inv (snd (push sc trs b force p)) \<and> P1 (snd (push sc trs b force p)))
    \<and> (agrees_with_stored p trs
        \<longrightarrow> pool_inv (snd (remove_trs sc trs p)) \<and> P1 (snd (remove_trs sc trs p))
            \<and> pool_inv (snd (pop sc trs p)) \<and> P1 (snd (pop sc trs p)))
    \<and> pool_inv (snd (popSortedUnconfirmedTransactions sc limit p))
    \<and> P1 (snd (popSortedUnconfirmedTransactions sc limit p))
    \<and> pool_inv (snd (removeTransactionBySenderId sc a p))
    \<and> P1 (snd (removeTransactionBySenderId sc a p))
    \<and> pool_inv (snd (removeTransactionByRecipientId sc a p))
    \<and> P1 (snd (removeTransactionByRecipientId sc a p))"
proof -
  note inv = assms
  have 1: "P1 p" using inv by (rule pool_inv_imp_P1)
  have 2: "pool_inv (snd (push sc trs b force p)) \<and> P1 (snd (push sc trs b force p))"
    if "fst (push sc trs b force p) \<or> (locked p \<and> \<not> force) \<or> has p trs
          \<or> isPotentialConflict sc p trs"
    using pool_inv_push[OF inv that] pool_inv_imp_P1 by blast
  have 3: "pool_inv (snd (remove_trs sc trs p)) \<and> P1 (snd (remove_trs sc trs p))
            \<and> pool_inv (snd (pop sc trs p)) \<and> P1 (snd (pop sc trs p))"
    if "agrees_with_stored p trs"
    using pool_inv_remove_trs[OF inv that] pool_inv_pop[OF inv that] pool_inv_imp_P1 by blast
  have 4: "pool_inv (snd (popSortedUnconfirmedTransactions sc limit p))"
    using inv by (rule pool_inv_popSorted)
  have 5: "pool_inv (snd (removeTransactionBySenderId sc a p))"
    using inv by (rule pool_inv_removeTransactionBySenderId)
  have 6: "pool_inv (snd (removeTransactionByRecipientId sc a p))"
    using inv by (rule pool_inv_removeTransactionByRecipientId)
  from 1 2 3 4 5 6 pool_inv_imp_P1[OF 4] pool_inv_imp_P1[OF 5] pool_inv_imp_P1[OF 6]
  show ?thesis by blast
qed

theorem pool_inv_preserved_witness:
  "pool_inv pool0 \<and> fst (push sc0 0 False False pool0)
   \<and> pool_inv (snd (push sc0 0 False False pool0)) \<and> P1 (snd (push sc0 0 False False pool0))
   \<and> pool_inv pool1 \<and> P1 pool1 \<and> agrees_with_stored pool1 0
   \<and> P1 (snd (remove_trs sc0 0 pool1)) \<and> P1 (snd (pop sc0 0 pool1))
   \<and> P1 (snd (popSortedUnconfirmedTransactions sc0 1 pool1))
   \<and> P1 (snd (removeTransactionBySenderId sc0 ''A'' pool1))
   \<and> P1 (snd (removeTransactionByRecipientId sc0 ''B'' pool1))"
proof -
  have a: "agrees_with_stored pool1 0"
    by (simp add: agrees_with_stored_def pool1_facts)
  show ?thesis
    using pool_inv_preserved [OF pool_inv_pool0, of sc0 0 False False]
      pool_inv_preserved [OF pool_inv_pool1, of sc0 0 False False 1 "''A''"]
      pool_inv_preserved [OF pool_inv_pool1, of sc0 0 False False 1 "''B''"]
      pool_inv_pool0 pool_inv_pool1 push0_applied a
    by simp
qed

lemma push_failed:
  assumes "locked p \<longrightarrow> force" and "\<not> has p trs" and "\<not> isPotentialConflict sc p trs"
    and "\<not> fst (newApplyUnconfirmed sc ((store p trs)\<lparr>status := PUT_IN_POOL\<rparr>) (ledger p))"
  shows "\<not> fst (push sc trs b force p)"
    and "pool (snd (push sc trs b force p)) =
           AList.delete (trs_id (store p trs))
             (AList.update (trs_id (store p trs)) trs (pool p))"
    and "poolBySender (snd (push sc trs b force p)) =
           (poolBySender p)(senderId (store p trs) \<mapsto>
              bucket (poolBySender p) (senderId (store p trs)) @ [trs])"
    and "store (snd (push sc trs b force p)) =
           (store p)(trs := (store p trs)\<lparr>status := DECLINED\<rparr>)"
proof -
  from assms(1) have l: "\<not> (locked p \<and> \<not> force)" by simp
  obtain applied l' where a:
    "newApplyUnconfirmed sc ((store p trs)\<lparr>status := PUT_IN_POOL\<rparr>) (ledger p) = (applied, l')"
    by (cases "newApplyUnconfirmed sc ((store p trs)\<lparr>status := PUT_IN_POOL\<rparr>) (ledger p)")
  with assms(4) have na: "\<not> applied" by simp
  show "\<not> fst (push sc trs b force p)"
    and "pool (snd (push sc trs b force p)) =
           AList.delete (trs_id (store p trs))
             (AList.update (trs_id (store p trs)) trs (pool p))"
    and "poolBySender (snd (push sc trs b force p)) =
           (poolBySender p)(senderId (store p trs) \<mapsto>
              bucket (poolBySender p) (senderId (store p trs)) @ [trs])"
    and "store (snd (push sc trs b force p)) =
           (store p)(trs := (store p trs)\<lparr>status := DECLINED\<rparr>)"
    using assms(1,2,3) a na
    by (auto simp: push_def Let_def set_status_def)
qed


text \<open>
  C2 does not hold of the code: a push whose \<^verbatim>\<open>newApplyUnconfirmed\<close> throws loses P1,
  whatever the pool was. The transaction passed the lock, duplicate and conflict
  checks and was inserted in \<open>pool\<close> and in the buckets; the catch block deletes it
  from \<open>pool\<close> only, so it is in the bucket of its sender and not in \<open>byId\<close>.
\<close>

theorem failed_push_breaks_P1:
  assumes "locked p \<longrightarrow> force" and "\<not> has p trs" and "\<not> isPotentialConflict sc p trs"
    and "\<not> fst (newApplyUnconfirmed sc ((store p trs)\<lparr>status := PUT_IN_POOL\<rparr>) (ledger p))"
  shows "\<not> fst (push sc trs b force p)
       \<and> in_bySender (snd (push sc trs b force p)) trs
       \<and> \<not> in_byId (snd (push sc trs b force p)) trs
       \<and> \<not> P1 (snd (push sc trs b force p))"
proof -
  let ?p' = "snd (push sc trs b force p)"
  note f = push_failed[OF assms, of b]
  have s: "in_bySender ?p' trs"
    by (simp add: in_bySender_def f(3,4) bucket_def)
  have i: "\<not> in_byId ?p' trs"
    by (simp add: in_byId_def f(2,4) map_of_delete_self)
  from s i have "\<not> P1 ?p'" unfolding P1_def by blast
  with f(1) s i show ?thesis by simp
qed

theorem failed_push_breaks_P1_witness:
  "\<not> locked pool0 \<and> \<not> has pool0 0 \<and> \<not> isPotentialConflict sc_fail pool0 0
   \<and> \<not> fst (newApplyUnconfirmed sc_fail ((store pool0 0)\<lparr>status := PUT_IN_POOL\<rparr>)
              (ledger pool0))
   \<and> P1 pool0
   \<and> \<not> fst (push sc_fail 0 False False pool0)
   \<and> in_bySender (snd (push sc_fail 0 False False pool0)) 0
   \<and> \<not> in_byId (snd (push sc_fail 0 False False pool0)) 0
   \<and> \<not> P1 (snd (push sc_fail 0 False False pool0))"
proof -
  have l: "\<not> locked pool0" by (simp add: pool0_def)
  then have l': "locked pool0 \<longrightarrow> False" by simp
  have h: "\<not> has pool0 0" "\<not> isPotentialConflict sc_fail pool0 0"
    "\<not> fst (newApplyUnconfirmed sc_fail ((store pool0 0)\<lparr>status := PUT_IN_POOL\<rparr>)
              (ledger pool0))"
    by (simp_all add: has_def isPotentialConflict_def bucket_def pool0_def sc_fail_def sc0_def)
  have p: "P1 pool0"
    by (simp add: P1_def in_byId_def in_bySender_def in_byRecipient_def pool0_def bucket_def)
  from failed_push_breaks_P1 [OF l' h, of False] l h p show ?thesis by simp
qed


section \<open>Well-formedness is an invariant of every operation\<close>

lemma pool_wf_fields:
  assumes "pool_wf p" "pool p' = pool p"
    "\<And>s. poolBySender p s \<noteq> None \<Longrightarrow> poolBySender p' s \<noteq> None"
    "\<And>r. trs_id (store p' r) = trs_id (store p r)"
    "\<And>r. senderId (store p' r) = senderId (store p r)"
  shows "pool_wf p'"
  unfolding pool_wf_alt
proof (intro conjI allI impI)
  show "distinct (map fst (pool p'))"
    using assms(1) by (simp add: assms(2) pool_wf_def)
next
  fix j t assume "map_of (pool p') j = Some t"
  then have "map_of (pool p) j = Some t" by (simp add: assms(2))
  with assms(1) have "trs_id (store p t) = j" "poolBySender p (senderId (store p t)) \<noteq> None"
    by (simp_all add: pool_wf_alt)
  then show "trs_id (store p' t) = j" "poolBySender p' (senderId (store p' t)) \<noteq> None"
    using assms(3)[of "senderId (store p t)"] by (simp_all add: assms(4,5))
qed

lemma pool_wf_delete:
  assumes "pool_wf p" "pool p' = AList.delete k (pool p)"
    "\<And>s. poolBySender p s \<noteq> None \<Longrightarrow> poolBySender p' s \<noteq> None"
    "\<And>r. trs_id (store p' r) = trs_id (store p r)"
    "\<And>r. senderId (store p' r) = senderId (store p r)"
  shows "pool_wf p'"
  unfolding pool_wf_alt
proof (intro conjI allI impI)
  show "distinct (map fst (pool p'))"
    using assms(1) by (simp add: assms(2) pool_wf_def AList.distinct_delete)
next
  fix j t assume "map_of (pool p') j = Some t"
  then have "map_of (pool p) j = Some t"
    unfolding assms(2) by (rule map_of_delete_Some[THEN conjunct1])
  with assms(1) have "trs_id (store p t) = j" "poolBySender p (senderId (store p t)) \<noteq> None"
    by (simp_all add: pool_wf_alt)
  then show "trs_id (store p' t) = j" "poolBySender p' (senderId (store p' t)) \<noteq> None"
    using assms(3)[of "senderId (store p t)"] by (simp_all add: assms(4,5))
qed

lemma pool_wf_update:
  assumes wf: "pool_wf p" and pl: "pool p' = AList.update (trs_id (store p trs)) trs (pool p)"
    and bs: "\<And>s. poolBySender p s \<noteq> None \<Longrightarrow> poolBySender p' s \<noteq> None"
    and new: "poolBySender p' (senderId (store p trs)) \<noteq> None"
    and i: "\<And>r. trs_id (store p' r) = trs_id (store p r)"
    and s: "\<And>r. senderId (store p' r) = senderId (store p r)"
  shows "pool_wf p'"
  unfolding pool_wf_alt
proof (intro conjI allI impI)
  show "distinct (map fst (pool p'))"
    using wf by (simp add: pl pool_wf_def AList.distinct_update)
next
  fix k t assume "map_of (pool p') k = Some t"
  then have c: "(k = trs_id (store p trs) \<and> t = trs) \<or> map_of (pool p) k = Some t"
    by (auto simp: pl AList.update_conv' split: if_splits)
  show "trs_id (store p' t) = k"
  proof (cases "k = trs_id (store p trs) \<and> t = trs")
    case True
    then show ?thesis by (simp add: i)
  next
    case False
    with c have "map_of (pool p) k = Some t" by simp
    with wf show ?thesis by (simp add: i pool_wf_alt)
  qed
  show "poolBySender p' (senderId (store p' t)) \<noteq> None"
  proof (cases "k = trs_id (store p trs) \<and> t = trs")
    case True
    then show ?thesis using new by (simp add: s)
  next
    case False
    with c have "map_of (pool p) k = Some t" by simp
    with wf have "poolBySender p (senderId (store p t)) \<noteq> None" by (simp add: pool_wf_alt)
    from bs[OF this] show ?thesis by (simp add: s)
  qed
qed

lemma pool_wf_push: "pool_wf p \<Longrightarrow> pool_wf (snd (push sc trs b force p))"
proof -
  assume wf: "pool_wf p"
  let ?i = "trs_id (store p trs)"
  let ?p' = "snd (push sc trs b force p)"
  define p4 where "p4 = p\<lparr>pool := AList.update ?i trs (pool p),
      poolBySender := (poolBySender p)(senderId (store p trs) \<mapsto>
         bucket (poolBySender p) (senderId (store p trs)) @ [trs])\<rparr>"
  have wf4: "pool_wf p4"
    using wf by (rule pool_wf_update) (auto simp: p4_def)
  show ?thesis
  proof (cases "(locked p \<and> \<not> force) \<or> has p trs")
    case True
    then have "push sc trs b force p = (False, p)" by (rule push_rejected)
    with wf show ?thesis by simp
  next
    case False
    note admitted = this
    show ?thesis
    proof (cases "isPotentialConflict sc p trs")
      case True
      with admitted have e: "?p' = p\<lparr>pool := AList.delete ?i (pool p)\<rparr>"
        by (cases "locked p") (simp_all add: push_def)
      show ?thesis
        unfolding e by (rule pool_wf_delete[OF wf, of _ ?i]) simp_all
    next
      case False
      obtain applied l where ap:
        "newApplyUnconfirmed sc ((store p trs)\<lparr>status := PUT_IN_POOL\<rparr>) (ledger p) = (applied, l)"
        by (cases "newApplyUnconfirmed sc ((store p trs)\<lparr>status := PUT_IN_POOL\<rparr>) (ledger p)")
      show ?thesis
      proof (cases applied)
        case True
        with admitted False ap
        have c: "pool ?p' = pool p4" "poolBySender ?p' = poolBySender p4"
          "store ?p' = (store p)(trs := (store p trs)\<lparr>status := UNCOFIRM_APPLIED\<rparr>)"
          by (cases "locked p"; simp add: push_def Let_def set_status_def p4_def)+
        have s4: "store p4 = store p" by (simp add: p4_def)
        show ?thesis
          by (rule pool_wf_fields[OF wf4]) (simp_all add: c s4)
      next
        case no: False
        with admitted False ap
        have c: "pool ?p' = AList.delete ?i (pool p4)" "poolBySender ?p' = poolBySender p4"
          "store ?p' = (store p)(trs := (store p trs)\<lparr>status := DECLINED\<rparr>)"
          by (cases "locked p"; simp add: push_def Let_def set_status_def p4_def)+
        have s4: "store p4 = store p" by (simp add: p4_def)
        show ?thesis
          by (rule pool_wf_delete[OF wf4, of _ ?i]) (simp_all add: c s4)
      qed
    qed
  qed
qed

lemma pool_wf_remove_collect: "pool_wf p \<Longrightarrow> pool_wf (snd (remove_collect sc ts acc p))"
proof (induction ts arbitrary: p acc)
  case Nil
  then show ?case by simp
next
  case (Cons x ts)
  have wf': "pool_wf (snd (remove_trs sc x p))" using Cons.prems by (rule pool_wf_remove_trs)
  show ?case
  proof (cases "remove_trs sc x p")
    case (Pair res p1)
    with wf' have wf1: "pool_wf p1" by simp
    show ?thesis
    proof (cases res)
      case (Inl e)
      with Pair wf1 show ?thesis by simp
    next
      case (Inr removed)
      with Pair Cons.IH[OF wf1] show ?thesis by simp
    qed
  qed
qed

lemma pool_wf_remove_each: "pool_wf p \<Longrightarrow> pool_wf (snd (remove_each sc ts p))"
proof (induction ts arbitrary: p)
  case Nil
  then show ?case by simp
next
  case (Cons x ts)
  have wf': "pool_wf (snd (remove_trs sc x p))" using Cons.prems by (rule pool_wf_remove_trs)
  show ?case
  proof (cases "remove_trs sc x p")
    case (Pair res p1)
    with wf' have wf1: "pool_wf p1" by simp
    show ?thesis
    proof (cases res)
      case (Inl e)
      with Pair wf1 show ?thesis by simp
    next
      case (Inr removed)
      with Pair Cons.IH[OF wf1] show ?thesis by simp
    qed
  qed
qed

lemma popSorted_snd:
  "snd (popSortedUnconfirmedTransactions sc limit p) =
     snd (remove_each sc (slice0 limit
        (array_sort (\<lambda>a b. transactionSortFunc sc (store p a) (store p b))
           (object_values (pool p)))) p)"
  by (simp add: popSortedUnconfirmedTransactions_def Let_def split: prod.splits sum.splits)

text \<open>
  Every operation of the pool keeps it well-formed, whatever it is called with and
  whether or not a collaborator throws; the empty pool is well-formed.
\<close>

theorem pool_wf_invariant:
  assumes "pool_wf p"
  shows "pool_wf (snd (push sc trs b force p))
    \<and> pool_wf (snd (remove_trs sc trs p))
    \<and> pool_wf (snd (pop sc trs p))
    \<and> pool_wf (snd (popSortedUnconfirmedTransactions sc limit p))
    \<and> pool_wf (snd (removeTransactionBySenderId sc a p))
    \<and> pool_wf (snd (removeTransactionByRecipientId sc a p))"
  using assms
  by (simp add: pool_wf_push pool_wf_remove_trs pop_def Let_def popSorted_snd pool_wf_remove_each
        removeTransactionBySenderId_def removeTransactionByRecipientId_def pool_wf_remove_collect)

theorem pool_wf_invariant_witness:
  "pool_wf pool0 \<and> pool_wf pool_failed \<and> pool_wf pool1
   \<and> pool_wf (snd (remove_trs sc0 3 pool1))"
proof -
  have 0: "pool_wf pool0" by (simp add: pool_wf_def pool0_def)
  from pool_wf_invariant [OF 0, of sc_fail 0 False False 1 "''A''"]
    pool_wf_invariant [OF pool_wf_pool1, of sc0 3 False False 1 "''A''"]
  show ?thesis using 0 pool_wf_pool1 by (simp add: pool_failed_def)
qed

end
